theory Spec2Isabelle
  imports Main
begin

section \<open>Priority Row Stack: the embedding of \<^verbatim>\<open>prs/core.py\<close>\<close>

text \<open>
  Every method of the source mutates its object in place and may raise. A method is
  modelled as a function from the object to a pair: the outcome (\<open>Inl\<close> the exception
  raised, \<open>Inr\<close> the value returned) and the object as the method leaves it, also when
  it raises. Python integers are \<open>int\<close>; bucket indices, which the source only ever
  takes from \<open>range(n)\<close> or from \<open>priority - 1\<close> with \<open>1 \<le> priority\<close>, are \<open>nat\<close>.
  The optional lock (\<open>thread_safe\<close>) guards every method and changes no result; it is
  not part of the model.
\<close>

subsection \<open>Exceptions\<close>

text \<open>
  The four classes of the source, and the built-in exceptions its statements can raise:
  \<open>ValueError\<close> (the constructors), \<open>IndexError\<close> (a list read out of range, a
  \<open>pop()\<close> or \<open>[-1]\<close> of an empty list) and \<open>AssertionError\<close> (the \<open>assert\<close> of
  \<open>PRSRow.peek\<close> and \<open>PRSRow.pop\<close>).
\<close>

datatype error =
  PRSError | PriorityError | EmptyError | RowFullError
  | ValueError | IndexError | AssertionError

text \<open>
  The class statements: \<open>class PriorityError(PRSError)\<close>, \<open>class EmptyError(PRSError)\<close>,
  \<open>class RowFullError(PRSError)\<close>; \<open>PRSError\<close> itself and the built-in exceptions
  have no base among the classes of the model.
\<close>

fun base_class :: "error \<Rightarrow> error option" where
  "base_class PriorityError = Some PRSError"
| "base_class EmptyError = Some PRSError"
| "base_class RowFullError = Some PRSError"
| "base_class PRSError = None"
| "base_class ValueError = None"
| "base_class IndexError = None"
| "base_class AssertionError = None"

text \<open>\<open>isinstance e c\<close>: a handler \<open>except c\<close> catches an exception raised as \<open>e\<close>.\<close>

definition isinstance :: "error \<Rightarrow> error \<Rightarrow> bool" where
  "isinstance e c = (e = c \<or> base_class e = Some c)"

subsection \<open>\<open>PRSRow\<close>\<close>

record 'a PRSRow =
  row_k :: int
  row_n :: int
  buckets :: "'a list list"
  count :: int
  top_priority_idx :: "nat option"

definition row_is_full :: "'a PRSRow \<Rightarrow> bool" where
  "row_is_full r = (count r \<ge> row_k r)"

definition row_is_empty :: "'a PRSRow \<Rightarrow> bool" where
  "row_is_empty r = (count r = 0)"

text \<open>
  The loop of \<open>_recompute_top_priority\<close>: \<open>for idx in range(self.n)\<close>, from \<open>idx\<close> with
  \<open>todo\<close> iterations left; it returns at the first bucket that is not empty.
\<close>

fun recompute_loop :: "'a list list \<Rightarrow> nat \<Rightarrow> nat \<Rightarrow> error + nat option" where
  "recompute_loop bs idx 0 = Inr None"
| "recompute_loop bs idx (Suc todo) =
     (if idx \<ge> length bs then Inl IndexError
      else if bs ! idx \<noteq> [] then Inr (Some idx)
      else recompute_loop bs (Suc idx) todo)"

definition recompute_top_priority :: "'a PRSRow \<Rightarrow> (error + unit) \<times> 'a PRSRow" where
  "recompute_top_priority r =
     (case recompute_loop (buckets r) 0 (nat (row_n r)) of
        Inl e \<Rightarrow> (Inl e, r\<lparr>top_priority_idx := None\<rparr>)
      | Inr t \<Rightarrow> (Inr (), r\<lparr>top_priority_idx := t\<rparr>))"

text \<open>
  \<open>PRSRow(k, n)\<close> as the stack calls it: the generated \<open>__init__\<close> with the default
  fields, then \<open>__post_init__\<close>.
\<close>

definition new_PRSRow :: "int \<Rightarrow> int \<Rightarrow> error + 'a PRSRow" where
  "new_PRSRow k n =
     (if k \<le> 0 then Inl ValueError
      else if n \<le> 0 then Inl ValueError
      else (case recompute_top_priority
                   \<lparr>row_k = k, row_n = n, buckets = replicate (nat n) [],
                    count = 0, top_priority_idx = None\<rparr> of
              (Inl e, r) \<Rightarrow> Inl e
            | (Inr u, r) \<Rightarrow> Inr r))"

definition row_push :: "'a PRSRow \<Rightarrow> 'a \<Rightarrow> int \<Rightarrow> (error + unit) \<times> 'a PRSRow" where
  "row_push r item priority =
     (if \<not> (1 \<le> priority \<and> priority \<le> row_n r) then (Inl PriorityError, r)
      else if row_is_full r then (Inl RowFullError, r)
      else (let idx = nat (priority - 1) in
        if idx \<ge> length (buckets r) then (Inl IndexError, r)
        else (Inr (),
          r\<lparr>buckets := (buckets r)[idx := (buckets r ! idx) @ [item]],
            count := count r + 1,
            top_priority_idx :=
              (case top_priority_idx r of
                 None \<Rightarrow> Some idx
               | Some t \<Rightarrow> if idx < t then Some idx else Some t)\<rparr>)))"

text \<open>
  The common start of \<open>peek\<close> and \<open>pop\<close>: the cached index is recomputed when it is
  \<open>None\<close>.
\<close>

definition refresh_top :: "'a PRSRow \<Rightarrow> (error + unit) \<times> 'a PRSRow" where
  "refresh_top r =
     (if top_priority_idx r = None then recompute_top_priority r else (Inr (), r))"

definition row_peek :: "'a PRSRow \<Rightarrow> (error + 'a) \<times> 'a PRSRow" where
  "row_peek r =
     (if row_is_empty r then (Inl EmptyError, r)
      else (case refresh_top r of
        (Inl e, r1) \<Rightarrow> (Inl e, r1)
      | (Inr u, r1) \<Rightarrow>
          (case top_priority_idx r1 of
             None \<Rightarrow> (Inl AssertionError, r1)
           | Some t \<Rightarrow>
               if t \<ge> length (buckets r1) then (Inl IndexError, r1)
               else if buckets r1 ! t = [] then (Inl IndexError, r1)
               else (Inr (last (buckets r1 ! t)), r1))))"

definition row_pop :: "'a PRSRow \<Rightarrow> (error + 'a) \<times> 'a PRSRow" where
  "row_pop r =
     (if row_is_empty r then (Inl EmptyError, r)
      else (case refresh_top r of
        (Inl e, r1) \<Rightarrow> (Inl e, r1)
      | (Inr u, r1) \<Rightarrow>
          (case top_priority_idx r1 of
             None \<Rightarrow> (Inl AssertionError, r1)
           | Some t \<Rightarrow>
               if t \<ge> length (buckets r1) then (Inl IndexError, r1)
               else if buckets r1 ! t = [] then (Inl IndexError, r1)
               else (let bucket = butlast (buckets r1 ! t);
                         item = last (buckets r1 ! t);
                         r2 = r1\<lparr>buckets := (buckets r1)[t := bucket],
                                 count := count r1 - 1\<rparr>
                     in if bucket = []
                        then (case recompute_top_priority r2 of
                                (Inl e, r3) \<Rightarrow> (Inl e, r3)
                              | (Inr u, r3) \<Rightarrow> (Inr item, r3))
                        else (Inr item, r2)))))"

text \<open>\<open>PRSRow.tolist\<close>: \<open>for idx in range(self.n): out.extend(reversed(self.buckets[idx]))\<close>.\<close>

fun row_tolist_loop :: "'a list list \<Rightarrow> nat \<Rightarrow> nat \<Rightarrow> 'a list \<Rightarrow> error + 'a list" where
  "row_tolist_loop bs idx 0 out = Inr out"
| "row_tolist_loop bs idx (Suc todo) out =
     (if idx \<ge> length bs then Inl IndexError
      else row_tolist_loop bs (Suc idx) todo (out @ rev (bs ! idx)))"

definition row_tolist :: "'a PRSRow \<Rightarrow> error + 'a list" where
  "row_tolist r = row_tolist_loop (buckets r) 0 (nat (row_n r)) []"

subsection \<open>\<open>PriorityRowStack\<close>\<close>

text \<open>
  The fields \<open>k\<close>, \<open>n\<close>, \<open>m\<close>, \<open>_rows\<close> (newest row last) and \<open>_size\<close>.
\<close>

record 'a PriorityRowStack =
  prs_k :: int
  prs_n :: int
  prs_m :: "int option"
  prs_rows :: "'a PRSRow list"
  prs_size :: int

definition new_PRS :: "int \<Rightarrow> int \<Rightarrow> int option \<Rightarrow> error + 'a PriorityRowStack" where
  "new_PRS k n m =
     (if k \<le> 0 \<or> n \<le> 0 then Inl ValueError
      else if (case m of None \<Rightarrow> False | Some mv \<Rightarrow> mv \<le> 0) then Inl ValueError
      else Inr \<lparr>prs_k = k, prs_n = n, prs_m = m, prs_rows = [], prs_size = 0\<rparr>)"

definition ensure_top_row :: "'a PriorityRowStack \<Rightarrow> (error + unit) \<times> 'a PriorityRowStack" where
  "ensure_top_row s =
     (if prs_rows s = [] \<or> row_is_full (last (prs_rows s)) then
        (if (case prs_m s of None \<Rightarrow> False | Some mv \<Rightarrow> int (length (prs_rows s)) \<ge> mv)
            \<and> (prs_rows s = [] \<or> row_is_full (last (prs_rows s)))
         then (Inl PRSError, s)
         else (case new_PRSRow (prs_k s) (prs_n s) of
                 Inl e \<Rightarrow> (Inl e, s)
               | Inr r \<Rightarrow> (Inr (), s\<lparr>prs_rows := prs_rows s @ [r]\<rparr>)))
      else (Inr (), s))"

text \<open>
  \<open>set_top s r\<close> writes the row object \<open>self._rows[-1]\<close> back after a method of the row
  has mutated it.
\<close>

definition set_top :: "'a PriorityRowStack \<Rightarrow> 'a PRSRow \<Rightarrow> 'a PriorityRowStack" where
  "set_top s r = s\<lparr>prs_rows := butlast (prs_rows s) @ [r]\<rparr>"

definition push :: "'a PriorityRowStack \<Rightarrow> 'a \<Rightarrow> int \<Rightarrow> (error + unit) \<times> 'a PriorityRowStack" where
  "push s item priority =
     (case ensure_top_row s of
        (Inl e, s1) \<Rightarrow> (Inl e, s1)
      | (Inr u, s1) \<Rightarrow>
          if prs_rows s1 = [] then (Inl IndexError, s1)
          else (case row_push (last (prs_rows s1)) item priority of
                  (Inl e, r) \<Rightarrow> (Inl e, set_top s1 r)
                | (Inr v, r) \<Rightarrow> (Inr (), (set_top s1 r)\<lparr>prs_size := prs_size s1 + 1\<rparr>)))"

text \<open>
  The pruning loop of \<open>peek\<close> and \<open>pop\<close>:
  \<open>while self._rows and self._rows[-1].is_empty(): self._rows.pop()\<close>.
\<close>

function prune :: "'a PRSRow list \<Rightarrow> 'a PRSRow list" where
  "prune rs = (if rs \<noteq> [] \<and> row_is_empty (last rs) then prune (butlast rs) else rs)"
  by pat_completeness auto
termination
  by (relation "measure length") auto

declare prune.simps [simp del]

definition peek :: "'a PriorityRowStack \<Rightarrow> (error + 'a) \<times> 'a PriorityRowStack" where
  "peek s =
     (if prs_size s = 0 then (Inl EmptyError, s)
      else (let s1 = s\<lparr>prs_rows := prune (prs_rows s)\<rparr> in
        if prs_rows s1 = [] then (Inl EmptyError, s1)
        else (case row_peek (last (prs_rows s1)) of
                (Inl e, r) \<Rightarrow> (Inl e, set_top s1 r)
              | (Inr x, r) \<Rightarrow> (Inr x, set_top s1 r))))"

definition pop :: "'a PriorityRowStack \<Rightarrow> (error + 'a) \<times> 'a PriorityRowStack" where
  "pop s =
     (if prs_size s = 0 then (Inl EmptyError, s)
      else (let s1 = s\<lparr>prs_rows := prune (prs_rows s)\<rparr> in
        if prs_rows s1 = [] then (Inl EmptyError, s1)
        else (case row_pop (last (prs_rows s1)) of
                (Inl e, r) \<Rightarrow> (Inl e, set_top s1 r)
              | (Inr item, r) \<Rightarrow>
                  (let s2 = (set_top s1 r)\<lparr>prs_size := prs_size s1 - 1\<rparr> in
                   if prs_rows s2 \<noteq> [] \<and> row_is_empty (last (prs_rows s2))
                   then (Inr item, s2\<lparr>prs_rows := butlast (prs_rows s2)\<rparr>)
                   else (Inr item, s2)))))"

definition is_empty :: "'a PriorityRowStack \<Rightarrow> bool" where
  "is_empty s = (prs_size s = 0)"

definition size_prs :: "'a PriorityRowStack \<Rightarrow> int" where
  "size_prs s = prs_size s"

definition rows_count :: "'a PriorityRowStack \<Rightarrow> nat" where
  "rows_count s = length (prs_rows s)"

text \<open>
  \<open>PriorityRowStack.tolist\<close>: \<open>for row in reversed(self._rows): out.extend(row.tolist())\<close>.
  The method assigns to no field of the stack or of a row, so the stack it leaves is the
  stack it was given.
\<close>

fun tolist_loop :: "'a PRSRow list \<Rightarrow> 'a list \<Rightarrow> error + 'a list" where
  "tolist_loop [] out = Inr out"
| "tolist_loop (r # rs) out =
     (case row_tolist r of
        Inl e \<Rightarrow> Inl e
      | Inr xs \<Rightarrow> tolist_loop rs (out @ xs))"

definition tolist :: "'a PriorityRowStack \<Rightarrow> (error + 'a list) \<times> 'a PriorityRowStack" where
  "tolist s = (tolist_loop (rev (prs_rows s)) [], s)"

section \<open>Notions for the proofs\<close>

subsection \<open>Rows\<close>

text \<open>
  \<open>row_items\<close> lists the items of a row bucket by bucket, in priority order, each
  bucket from its newest item to its oldest. \<open>top_ok bs t\<close> says that the cached index
  \<open>t\<close> is right for the buckets \<open>bs\<close>: \<open>None\<close> when every bucket is empty, else
  the least index of a bucket that is not empty.
\<close>

definition row_items :: "'a PRSRow \<Rightarrow> 'a list" where
  "row_items r = concat (map rev (buckets r))"

definition top_ok :: "'a list list \<Rightarrow> nat option \<Rightarrow> bool" where
  "top_ok bs t =
     (case t of
        None \<Rightarrow> list_all (\<lambda>b. b = []) bs
      | Some j \<Rightarrow> j < length bs \<and> bs ! j \<noteq> [] \<and> list_all (\<lambda>b. b = []) (take j bs))"

definition row_inv :: "int \<Rightarrow> int \<Rightarrow> 'a PRSRow \<Rightarrow> bool" where
  "row_inv k n r =
     (row_k r = k \<and> row_n r = n \<and> 0 < k \<and> 0 < n \<and> length (buckets r) = nat n
      \<and> count r = int (sum_list (map length (buckets r))) \<and> count r \<le> k
      \<and> top_ok (buckets r) (top_priority_idx r))"

subsection \<open>Stacks\<close>

text \<open>
  \<open>items\<close> lists the items of the stack from the newest row to the oldest, each row by
  \<open>row_items\<close>. \<open>prs_inv\<close> collects what holds of every stack the interface can
  build: the configuration is positive, the row limit is respected, every row satisfies
  \<open>row_inv\<close>, every row but the last is full, and \<open>_size\<close> is the sum of the row
  counts. \<open>reachable\<close> are the stacks a caller can obtain: a constructed one, and the
  stack any call of \<open>push\<close>, \<open>peek\<close> or \<open>pop\<close> leaves behind, whether it raised or not.
\<close>

definition items :: "'a PriorityRowStack \<Rightarrow> 'a list" where
  "items s = concat (map row_items (rev (prs_rows s)))"

definition empty_row :: "int \<Rightarrow> int \<Rightarrow> 'a PRSRow" where
  "empty_row k n = \<lparr>row_k = k, row_n = n, buckets = replicate (nat n) [],
                     count = 0, top_priority_idx = None\<rparr>"

definition m_allows :: "int option \<Rightarrow> nat \<Rightarrow> bool" where
  "m_allows m len = (case m of None \<Rightarrow> True | Some mv \<Rightarrow> int len \<le> mv)"

definition prs_inv :: "'a PriorityRowStack \<Rightarrow> bool" where
  "prs_inv s =
     (0 < prs_k s \<and> 0 < prs_n s \<and> m_allows (prs_m s) (length (prs_rows s))
      \<and> list_all (row_inv (prs_k s) (prs_n s)) (prs_rows s)
      \<and> list_all (\<lambda>r. count r = prs_k s) (butlast (prs_rows s))
      \<and> prs_size s = sum_list (map count (prs_rows s)))"

inductive reachable :: "'a PriorityRowStack \<Rightarrow> bool" where
  reach_new: "new_PRS k n m = Inr s \<Longrightarrow> reachable s"
| reach_push: "reachable s \<Longrightarrow> reachable (snd (push s item priority))"
| reach_peek: "reachable s \<Longrightarrow> reachable (snd (peek s))"
| reach_pop: "reachable s \<Longrightarrow> reachable (snd (pop s))"

text \<open>
  \<open>needs_row\<close> and \<open>at_limit\<close> are the two tests of \<open>_ensure_top_row\<close>; \<open>opened s\<close> are
  the rows it leaves when it does not raise.
\<close>

definition needs_row :: "'a PriorityRowStack \<Rightarrow> bool" where
  "needs_row s = (prs_rows s = [] \<or> row_is_full (last (prs_rows s)))"

definition at_limit :: "'a PriorityRowStack \<Rightarrow> bool" where
  "at_limit s =
     (case prs_m s of None \<Rightarrow> False | Some mv \<Rightarrow> int (length (prs_rows s)) \<ge> mv)"

definition opened :: "'a PriorityRowStack \<Rightarrow> 'a PRSRow list" where
  "opened s =
     (if needs_row s then prs_rows s @ [empty_row (prs_k s) (prs_n s)] else prs_rows s)"

text \<open>
  \<open>fresh_PRS k n m\<close> is the stack the constructor returns for valid arguments, and
  \<open>pushes\<close> calls \<open>push\<close> for each pair of a list in turn, going on after a call that
  raised, as a caller that catches the exception does.
\<close>

definition fresh_PRS :: "int \<Rightarrow> int \<Rightarrow> int option \<Rightarrow> 'a PriorityRowStack" where
  "fresh_PRS k n m = \<lparr>prs_k = k, prs_n = n, prs_m = m, prs_rows = [], prs_size = 0\<rparr>"

fun pushes :: "'a PriorityRowStack \<Rightarrow> ('a \<times> int) list \<Rightarrow> 'a PriorityRowStack" where
  "pushes s [] = s"
| "pushes s ((item, priority) # xs) = pushes (snd (push s item priority)) xs"

text \<open>
  \<open>stored s\<close> is the number of items in all buckets of all rows of \<open>s\<close>, whatever the
  \<open>count\<close> fields say.
\<close>

definition stored :: "'a PriorityRowStack \<Rightarrow> nat" where
  "stored s = sum_list (map (\<lambda>r. sum_list (map length (buckets r))) (prs_rows s))"

subsection \<open>Runs of calls\<close>

text \<open>
  A caller is a list of calls; \<open>run\<close> makes them in turn, keeping the stack each call
  leaves behind, whether the call returned or raised.
\<close>

datatype 'a op = Push 'a int | Peek | Pop

fun step :: "'a PriorityRowStack \<Rightarrow> 'a op \<Rightarrow> 'a PriorityRowStack" where
  "step s (Push item priority) = snd (push s item priority)"
| "step s Peek = snd (peek s)"
| "step s Pop = snd (pop s)"

fun run :: "'a PriorityRowStack \<Rightarrow> 'a op list \<Rightarrow> 'a PriorityRowStack" where
  "run s [] = s"
| "run s (c # cs) = run (step s c) cs"

text \<open>The calls of a run that returned: pushes accepted, pops performed.\<close>

fun returned :: "'a PriorityRowStack \<Rightarrow> 'a op \<Rightarrow> bool" where
  "returned s (Push item priority) = (\<not> isl (fst (push s item priority)))"
| "returned s Peek = (\<not> isl (fst (peek s)))"
| "returned s Pop = (\<not> isl (fst (pop s)))"

fun is_push :: "'a op \<Rightarrow> bool" where
  "is_push (Push item priority) = True"
| "is_push c = False"

fun pushes_accepted :: "'a PriorityRowStack \<Rightarrow> 'a op list \<Rightarrow> int" where
  "pushes_accepted s [] = 0"
| "pushes_accepted s (c # cs) =
     (if is_push c \<and> returned s c then 1 else 0) + pushes_accepted (step s c) cs"

fun pops_performed :: "'a PriorityRowStack \<Rightarrow> 'a op list \<Rightarrow> int" where
  "pops_performed s [] = 0"
| "pops_performed s (c # cs) =
     (if c = Pop \<and> returned s c then 1 else 0) + pops_performed (step s c) cs"

section \<open>The retrieval rule, as the specification words it\<close>

text \<open>
  The retrieval rule in the words of the specification. The history of a row lists the
  items now in the row with their priorities, in the order they were pushed. The next item
  is the most recently pushed one among those of the numerically lowest priority present;
  a pop takes that item out, and an accepted push adds its item at the end.
\<close>

type_synonym 'a history = "('a \<times> int) list"

definition spec_lowest :: "'a history \<Rightarrow> int" where
  "spec_lowest h = Min (set (map snd h))"

definition spec_next :: "'a history \<Rightarrow> 'a option" where
  "spec_next h =
     (if h = [] then None
      else Some (fst (last (filter (\<lambda>e. snd e = spec_lowest h) h))))"

fun remove_first :: "('a \<Rightarrow> bool) \<Rightarrow> 'a list \<Rightarrow> 'a list" where
  "remove_first P [] = []"
| "remove_first P (x # xs) = (if P x then xs else x # remove_first P xs)"

definition spec_remove :: "'a history \<Rightarrow> 'a history" where
  "spec_remove h = rev (remove_first (\<lambda>e. snd e = spec_lowest h) (rev h))"

fun spec_step :: "int \<Rightarrow> int \<Rightarrow> 'a history \<Rightarrow> 'a op \<Rightarrow> 'a history" where
  "spec_step k n h (Push item priority) =
     (if 1 \<le> priority \<and> priority \<le> n \<and> int (length h) < k
      then h @ [(item, priority)] else h)"
| "spec_step k n h Peek = h"
| "spec_step k n h Pop = (if h = [] then h else spec_remove h)"

fun spec_run :: "int \<Rightarrow> int \<Rightarrow> 'a history \<Rightarrow> 'a op list \<Rightarrow> 'a history" where
  "spec_run k n h [] = h"
| "spec_run k n h (c # cs) = spec_run k n (spec_step k n h c) cs"

text \<open>The calls on one row, as \<open>run\<close> makes them on a stack.\<close>

fun row_step :: "'a PRSRow \<Rightarrow> 'a op \<Rightarrow> 'a PRSRow" where
  "row_step r (Push item priority) = snd (row_push r item priority)"
| "row_step r Peek = snd (row_peek r)"
| "row_step r Pop = snd (row_pop r)"

fun row_run :: "'a PRSRow \<Rightarrow> 'a op list \<Rightarrow> 'a PRSRow" where
  "row_run r [] = r"
| "row_run r (c # cs) = row_run (row_step r c) cs"

text \<open>
  \<open>row_rel k n r h\<close>: the row \<open>r\<close> holds the history \<open>h\<close>. Bucket \<open>i\<close> is the items of
  priority \<open>i + 1\<close>, oldest first.
\<close>

definition bucket_of :: "'a history \<Rightarrow> nat \<Rightarrow> 'a list" where
  "bucket_of h i = map fst (filter (\<lambda>e. snd e = int i + 1) h)"

definition row_rel :: "int \<Rightarrow> int \<Rightarrow> 'a PRSRow \<Rightarrow> 'a history \<Rightarrow> bool" where
  "row_rel k n r h =
     (row_inv k n r \<and> list_all (\<lambda>e. 1 \<le> snd e \<and> snd e \<le> n) h
      \<and> count r = int (length h)
      \<and> buckets r = map (bucket_of h) [0..<nat n])"

section \<open>The invariant of a row\<close>

lemma recompute_loop_ok:
  "idx + todo = length bs \<Longrightarrow> list_all (\<lambda>b. b = []) (take idx bs)
   \<Longrightarrow> \<exists>t. recompute_loop bs idx todo = Inr t \<and> top_ok bs t"
proof (induction todo arbitrary: idx)
  case 0
  then show ?case by (simp add: top_ok_def)
next
  case (Suc todo)
  show ?case
  proof (cases "bs ! idx = []")
    case True
    with Suc.prems have "list_all (\<lambda>b. b = []) (take (Suc idx) bs)"
      by (simp add: take_Suc_conv_app_nth)
    with Suc.IH [of "Suc idx"] Suc.prems True show ?thesis by simp
  next
    case False
    with Suc.prems show ?thesis by (simp add: top_ok_def)
  qed
qed

lemma recompute_loop_replicate:
  "idx + todo \<le> m \<Longrightarrow> recompute_loop (replicate m []) idx todo = Inr None"
  by (induction todo arbitrary: idx) auto

lemma new_PRSRow_ok:
  "0 < k \<Longrightarrow> 0 < n \<Longrightarrow>
   new_PRSRow k n = Inr \<lparr>row_k = k, row_n = n, buckets = replicate (nat n) [],
                          count = 0, top_priority_idx = None\<rparr>"
  by (simp add: new_PRSRow_def recompute_top_priority_def recompute_loop_replicate)

lemma row_inv_new:
  "0 < k \<Longrightarrow> 0 < n \<Longrightarrow>
   row_inv k n \<lparr>row_k = k, row_n = n, buckets = replicate (nat n) [],
                 count = 0, top_priority_idx = None\<rparr>"
  by (simp add: row_inv_def top_ok_def list_all_iff)

lemma sum_length_update:
  assumes "i < length bs"
  shows "sum_list (map length (bs[i := b])) + length (bs ! i)
         = sum_list (map length bs) + length b"
proof -
  have "sum_list (map length bs)
        = sum_list (map length (take i bs @ bs ! i # drop (Suc i) bs))"
    using id_take_nth_drop [OF assms] by simp
  then show ?thesis
    using assms by (simp add: upd_conv_take_nth_drop)
qed

lemma concat_rev_split:
  assumes "i < length bs"
  shows "concat (map rev bs)
         = concat (map rev (take i bs)) @ rev (bs ! i) @ concat (map rev (drop (Suc i) bs))"
proof -
  have "concat (map rev bs) = concat (map rev (take i bs @ bs ! i # drop (Suc i) bs))"
    using id_take_nth_drop [OF assms] by simp
  then show ?thesis by simp
qed

lemma concat_rev_empties:
  "list_all (\<lambda>b. b = []) bs \<Longrightarrow> concat (map rev bs) = []"
  by (induction bs) auto

lemma top_ok_None_sum:
  "top_ok bs None \<Longrightarrow> sum_list (map length bs) = 0"
  by (induction bs) (auto simp: top_ok_def)

lemma top_ok_push:
  assumes "top_ok bs t" "idx < length bs"
  shows "top_ok (bs[idx := bs ! idx @ [x]])
           (case t of None \<Rightarrow> Some idx | Some j \<Rightarrow> if idx < j then Some idx else Some j)"
proof (cases t)
  case None
  with assms have "list_all (\<lambda>b. b = []) (take idx bs)"
    by (auto simp: top_ok_def list_all_iff dest: in_set_takeD)
  with None assms show ?thesis by (simp add: top_ok_def)
next
  case (Some j)
  show ?thesis
  proof (cases "idx < j")
    case True
    with Some assms have "list_all (\<lambda>b. b = []) (take idx bs)"
      using set_take_subset_set_take [of idx j bs]
      by (auto simp: top_ok_def list_all_iff)
    with Some True assms show ?thesis by (simp add: top_ok_def)
  next
    case False
    with Some assms show ?thesis
      by (auto simp: top_ok_def nth_list_update)
  qed
qed

subsection \<open>The operations of a row under the invariant\<close>

lemma row_push_ok:
  assumes "row_inv k n r" "1 \<le> p" "p \<le> n" "count r < k"
  shows "\<exists>r'. row_push r x p = (Inr (), r') \<and> row_inv k n r'
          \<and> buckets r' = (buckets r)[nat (p - 1) := buckets r ! nat (p - 1) @ [x]]
          \<and> count r' = count r + 1"
proof -
  let ?idx = "nat (p - 1)"
  from assms have idx: "?idx < length (buckets r)" by (auto simp: row_inv_def)
  from assms have t: "top_ok (buckets r) (top_priority_idx r)" by (simp add: row_inv_def)
  have c: "int (sum_list (map length ((buckets r)[?idx := buckets r ! ?idx @ [x]])))
           = int (sum_list (map length (buckets r))) + 1"
    using sum_length_update [OF idx, of "buckets r ! ?idx @ [x]"] by simp
  show ?thesis
    using assms idx c top_ok_push [OF t idx, of x]
    by (simp add: row_push_def row_is_full_def row_inv_def Let_def)
qed

lemma row_push_bad_priority:
  "\<not> (1 \<le> p \<and> p \<le> row_n r) \<Longrightarrow> row_push r x p = (Inl PriorityError, r)"
  by (simp add: row_push_def)

lemma row_items_push:
  assumes "idx < length bs"
  shows "concat (map rev (bs[idx := bs ! idx @ [x]]))
         = concat (map rev (take idx bs)) @ x # rev (bs ! idx) @ concat (map rev (drop (Suc idx) bs))"
  using assms by (simp add: upd_conv_take_nth_drop)

lemma top_ok_Some_items:
  assumes "top_ok bs (Some t)"
  shows "concat (map rev bs) = rev (bs ! t) @ concat (map rev (drop (Suc t) bs))"
proof -
  from assms have "t < length bs" "list_all (\<lambda>b. b = []) (take t bs)"
    by (simp_all add: top_ok_def)
  then show ?thesis
    using concat_rev_split [of t bs] by (simp add: concat_rev_empties)
qed

lemma top_ok_Some_hd:
  assumes "top_ok bs (Some t)"
  shows "hd (concat (map rev bs)) = last (bs ! t)"
proof -
  from assms have "bs ! t \<noteq> []" by (simp add: top_ok_def)
  then show ?thesis
    by (simp add: top_ok_Some_items [OF assms] hd_rev)
qed

lemma top_ok_Some_pop:
  assumes "top_ok bs (Some t)"
  shows "concat (map rev (bs[t := butlast (bs ! t)])) = tl (concat (map rev bs))"
proof -
  from assms have t: "t < length bs" and e: "list_all (\<lambda>b. b = []) (take t bs)"
    and ne: "bs ! t \<noteq> []"
    by (simp_all add: top_ok_def)
  have "concat (map rev (bs[t := butlast (bs ! t)]))
        = rev (butlast (bs ! t)) @ concat (map rev (drop (Suc t) bs))"
    using t e by (simp add: upd_conv_take_nth_drop concat_rev_empties)
  moreover have "rev (butlast (bs ! t)) = tl (rev (bs ! t))"
    by (metis butlast_rev rev_rev_ident)
  ultimately show ?thesis
    using ne by (simp add: top_ok_Some_items [OF assms])
qed

lemma row_inv_top_Some:
  assumes "row_inv k n r" "count r \<noteq> 0"
  shows "\<exists>t. top_priority_idx r = Some t \<and> top_ok (buckets r) (Some t)"
proof (cases "top_priority_idx r")
  case None
  with assms show ?thesis
    using top_ok_None_sum [of "buckets r"] by (simp add: row_inv_def)
next
  case (Some t)
  with assms show ?thesis by (simp add: row_inv_def)
qed

lemma row_peek_ok:
  assumes "row_inv k n r" "count r \<noteq> 0"
  shows "row_peek r = (Inr (hd (row_items r)), r)"
proof -
  from row_inv_top_Some [OF assms] obtain t where
    t: "top_priority_idx r = Some t" "top_ok (buckets r) (Some t)" by blast
  then have "t < length (buckets r)" "buckets r ! t \<noteq> []" by (simp_all add: top_ok_def)
  with assms t show ?thesis
    by (simp add: row_peek_def row_is_empty_def refresh_top_def row_items_def top_ok_Some_hd)
qed

lemma row_pop_ok:
  assumes "row_inv k n r" "count r \<noteq> 0"
  shows "\<exists>r'. row_pop r = (Inr (hd (row_items r)), r') \<and> row_inv k n r'
          \<and> row_items r' = tl (row_items r) \<and> count r' = count r - 1"
proof -
  from row_inv_top_Some [OF assms] obtain t where
    t: "top_priority_idx r = Some t" "top_ok (buckets r) (Some t)" by blast
  then have tl: "t < length (buckets r)" and ne: "buckets r ! t \<noteq> []"
    and em: "list_all (\<lambda>b. b = []) (take t (buckets r))"
    by (simp_all add: top_ok_def)
  let ?bs = "(buckets r)[t := butlast (buckets r ! t)]"
  let ?r2 = "r\<lparr>buckets := ?bs, count := count r - 1\<rparr>"
  have c: "int (sum_list (map length ?bs)) = int (sum_list (map length (buckets r))) - 1"
  proof -
    have p: "0 < length (buckets r ! t)" using ne by simp
    have "sum_list (map length ?bs) + length (buckets r ! t)
          = sum_list (map length (buckets r)) + (length (buckets r ! t) - 1)"
      using sum_length_update [OF tl, of "butlast (buckets r ! t)"] by simp
    with p show ?thesis by linarith
  qed
  have items: "concat (map rev ?bs) = tl (concat (map rev (buckets r)))"
    by (rule top_ok_Some_pop [OF t(2)])
  have item: "hd (row_items r) = last (buckets r ! t)"
    by (simp add: row_items_def top_ok_Some_hd [OF t(2)])
  have len: "length ?bs = nat (row_n r)" using assms by (simp add: row_inv_def)
  show ?thesis
  proof (cases "butlast (buckets r ! t) = []")
    case True
    from recompute_loop_ok [of 0 "nat (row_n r)" ?bs] len
    obtain t' where t': "recompute_loop ?bs 0 (nat (row_n r)) = Inr t'" "top_ok ?bs t'"
      by auto
    have "row_pop r = (Inr (hd (row_items r)), ?r2\<lparr>top_priority_idx := t'\<rparr>)"
      using assms t tl ne True t' item
      by (simp add: row_pop_def row_is_empty_def refresh_top_def Let_def
          recompute_top_priority_def)
    moreover have "row_inv k n (?r2\<lparr>top_priority_idx := t'\<rparr>)"
      using assms c t' by (simp add: row_inv_def)
    moreover have "row_items (?r2\<lparr>top_priority_idx := t'\<rparr>) = tl (row_items r)"
      using items by (simp add: row_items_def)
    ultimately show ?thesis by simp
  next
    case False
    have "top_ok ?bs (Some t)"
      using tl em False by (simp add: top_ok_def)
    moreover have "row_pop r = (Inr (hd (row_items r)), ?r2)"
      using assms t tl ne False item
      by (simp add: row_pop_def row_is_empty_def refresh_top_def Let_def)
    moreover have "row_items ?r2 = tl (row_items r)"
      using items by (simp add: row_items_def)
    ultimately show ?thesis
      using assms c t by (simp add: row_inv_def)
  qed
qed

lemma row_empty_ops:
  "count r = 0 \<Longrightarrow> row_peek r = (Inl EmptyError, r)"
  "count r = 0 \<Longrightarrow> row_pop r = (Inl EmptyError, r)"
  by (simp_all add: row_peek_def row_pop_def row_is_empty_def)

lemma row_tolist_loop_eq:
  "idx + todo \<le> length bs \<Longrightarrow>
   row_tolist_loop bs idx todo out = Inr (out @ concat (map rev (take todo (drop idx bs))))"
proof (induction todo arbitrary: idx out)
  case 0
  then show ?case by simp
next
  case (Suc todo)
  then have "idx < length bs" by simp
  then have "take (Suc todo) (drop idx bs) = bs ! idx # take todo (drop (Suc idx) bs)"
    by (simp add: Cons_nth_drop_Suc [symmetric])
  with Suc show ?case by simp
qed

lemma row_tolist_ok:
  "row_inv k n r \<Longrightarrow> row_tolist r = Inr (row_items r)"
  by (simp add: row_tolist_def row_items_def row_inv_def row_tolist_loop_eq)

lemma row_items_length:
  "row_inv k n r \<Longrightarrow> count r = int (length (row_items r))"
  by (simp add: row_inv_def row_items_def length_concat comp_def)

section \<open>The invariant of the stack\<close>

lemma prune_Nil: "prune [] = []"
  by (simp add: prune.simps)

lemma prune_keep: "rs \<noteq> [] \<Longrightarrow> count (last rs) \<noteq> 0 \<Longrightarrow> prune rs = rs"
  by (simp add: prune.simps [of rs] row_is_empty_def)

lemma prune_full:
  assumes "list_all (\<lambda>r. count r = k) (butlast rs)" "0 < k"
  shows "prune rs = (if rs \<noteq> [] \<and> count (last rs) = 0 then butlast rs else rs)"
proof (cases "rs \<noteq> [] \<and> count (last rs) = 0")
  case False
  then show ?thesis by (auto simp: prune.simps [of rs] row_is_empty_def)
next
  case True
  have "prune (butlast rs) = butlast rs"
  proof (cases "butlast rs = []")
    case True
    then show ?thesis by (simp add: prune_Nil)
  next
    case False
    then have "last (butlast rs) \<in> set (butlast rs)" by simp
    with assms have "count (last (butlast rs)) \<noteq> 0" by (auto simp: list_all_iff)
    with False show ?thesis by (simp add: prune_keep)
  qed
  with True show ?thesis by (simp add: prune.simps [of rs] row_is_empty_def)
qed

lemma row_items_empty: "row_inv k n r \<Longrightarrow> count r = 0 \<Longrightarrow> row_items r = []"
  using row_items_length [of k n r] by simp

lemma items_snoc: "items (s\<lparr>prs_rows := rs @ [r]\<rparr>) = row_items r @ concat (map row_items (rev rs))"
  by (simp add: items_def)

lemma sum_count_items:
  "list_all (row_inv k n) rs \<Longrightarrow>
   sum_list (map count rs) = int (length (concat (map row_items (rev rs))))"
proof (induction rs rule: rev_induct)
  case Nil
  then show ?case by simp
next
  case (snoc r rs)
  then show ?case using row_items_length [of k n r] by simp
qed

lemma size_items: "prs_inv s \<Longrightarrow> prs_size s = int (length (items s))"
  using sum_count_items [of "prs_k s" "prs_n s" "prs_rows s"]
  by (simp add: prs_inv_def items_def)

lemma tolist_loop_eq:
  "list_all (row_inv k n) rs \<Longrightarrow>
   tolist_loop rs out = Inr (out @ concat (map row_items rs))"
  by (induction rs arbitrary: out) (auto simp: row_tolist_ok)

lemma tolist_ok: "prs_inv s \<Longrightarrow> tolist s = (Inr (items s), s)"
  using tolist_loop_eq [of "prs_k s" "prs_n s" "rev (prs_rows s)" "[]"]
  by (simp add: prs_inv_def tolist_def items_def)

lemma new_PRS_inv: "new_PRS k n m = Inr s \<Longrightarrow> prs_inv s"
  by (auto simp: new_PRS_def prs_inv_def m_allows_def split: if_splits option.splits)

subsection \<open>Opening a row\<close>

lemma push_limit:
  "needs_row s \<Longrightarrow> at_limit s \<Longrightarrow> push s x p = (Inl PRSError, s)"
  by (auto simp: push_def ensure_top_row_def needs_row_def at_limit_def)

lemma ensure_top_row_ok:
  assumes "prs_inv s" "\<not> (needs_row s \<and> at_limit s)"
  shows "ensure_top_row s = (Inr (), s\<lparr>prs_rows := opened s\<rparr>)"
proof (cases "needs_row s")
  case True
  with assms have "\<not> at_limit s" by simp
  with True assms(1) show ?thesis
    by (auto simp: ensure_top_row_def needs_row_def at_limit_def opened_def prs_inv_def
        new_PRSRow_ok empty_row_def)
next
  case False
  then show ?thesis
    by (auto simp: ensure_top_row_def needs_row_def opened_def)
qed

lemma m_allows_less: "m_allows m a \<Longrightarrow> b \<le> a \<Longrightarrow> m_allows m b"
  by (auto simp: m_allows_def split: option.splits)

lemma full_all:
  assumes "list_all (row_inv k n) rs" "list_all (\<lambda>r. count r = k) (butlast rs)"
    "rs = [] \<or> row_is_full (last rs)"
  shows "list_all (\<lambda>r. count r = k) rs"
proof (cases "rs = []")
  case True
  then show ?thesis by simp
next
  case False
  with assms have "row_inv k n (last rs)" "row_is_full (last rs)"
    by (auto simp: list_all_iff)
  then have "count (last rs) = k" by (auto simp: row_inv_def row_is_full_def)
  with assms(2) have "list_all (\<lambda>r. count r = k) (butlast rs @ [last rs])" by simp
  with False show ?thesis by simp
qed

lemma opened_inv:
  assumes "prs_inv s" "\<not> (needs_row s \<and> at_limit s)"
  shows "prs_inv (s\<lparr>prs_rows := opened s\<rparr>)"
    and "opened s \<noteq> []"
    and "count (last (opened s)) < prs_k s"
proof -
  show "opened s \<noteq> []" by (auto simp: opened_def needs_row_def)
  show "count (last (opened s)) < prs_k s"
  proof (cases "needs_row s")
    case True
    with assms(1) show ?thesis by (simp add: opened_def empty_row_def prs_inv_def)
  next
    case False
    then have "prs_rows s \<noteq> []" "\<not> row_is_full (last (prs_rows s))"
      by (auto simp: needs_row_def)
    moreover from this assms(1) have "row_inv (prs_k s) (prs_n s) (last (prs_rows s))"
      by (auto simp: prs_inv_def list_all_iff)
    ultimately show ?thesis
      using False by (simp add: opened_def row_is_full_def row_inv_def)
  qed
  show "prs_inv (s\<lparr>prs_rows := opened s\<rparr>)"
  proof (cases "needs_row s")
    case False
    with assms show ?thesis by (simp add: opened_def)
  next
    case True
    with assms have "\<not> at_limit s" by simp
    then have "m_allows (prs_m s) (Suc (length (prs_rows s)))"
      by (auto simp: at_limit_def m_allows_def split: option.splits)
    moreover have "list_all (\<lambda>r. count r = prs_k s) (prs_rows s)"
      using full_all [of "prs_k s" "prs_n s" "prs_rows s"] assms(1) True
      by (simp add: prs_inv_def needs_row_def)
    moreover have "row_inv (prs_k s) (prs_n s) (empty_row (prs_k s) (prs_n s))"
      using assms(1) by (simp add: empty_row_def row_inv_new prs_inv_def)
    ultimately show ?thesis
      using assms(1) True by (simp add: prs_inv_def opened_def empty_row_def)
  qed
qed

lemma sum_count_snoc:
  "rs \<noteq> [] \<Longrightarrow> sum_list (map count rs) = sum_list (map count (butlast rs)) + count (last rs)"
  by (induction rs rule: rev_induct) auto

lemma prs_inv_set_top:
  assumes "prs_inv s" "prs_rows s \<noteq> []" "row_inv (prs_k s) (prs_n s) r"
  shows "prs_inv (s\<lparr>prs_rows := butlast (prs_rows s) @ [r],
                    prs_size := prs_size s + count r - count (last (prs_rows s))\<rparr>)"
proof -
  have "list_all (row_inv (prs_k s) (prs_n s)) (butlast (prs_rows s))"
    using assms(1) by (auto simp: prs_inv_def list_all_iff dest: in_set_butlastD)
  then show ?thesis
    using assms sum_count_snoc [OF assms(2)] by (simp add: prs_inv_def)
qed

lemma prs_inv_drop_empty:
  assumes "prs_inv s" "prs_rows s \<noteq> []" "count (last (prs_rows s)) = 0"
  shows "prs_inv (s\<lparr>prs_rows := butlast (prs_rows s)\<rparr>)"
    and "items (s\<lparr>prs_rows := butlast (prs_rows s)\<rparr>) = items s"
proof -
  have all: "list_all (row_inv (prs_k s) (prs_n s)) (butlast (prs_rows s))"
    using assms(1) by (auto simp: prs_inv_def list_all_iff dest: in_set_butlastD)
  have full: "list_all (\<lambda>r. count r = prs_k s) (butlast (butlast (prs_rows s)))"
    using assms(1) by (auto simp: prs_inv_def list_all_iff dest: in_set_butlastD)
  have "m_allows (prs_m s) (length (butlast (prs_rows s)))"
    using assms(1) m_allows_less [of "prs_m s" "length (prs_rows s)"] by (simp add: prs_inv_def)
  with all full show "prs_inv (s\<lparr>prs_rows := butlast (prs_rows s)\<rparr>)"
    using assms sum_count_snoc [OF assms(2)] by (simp add: prs_inv_def)
  have "row_inv (prs_k s) (prs_n s) (last (prs_rows s))"
    using assms by (auto simp: prs_inv_def list_all_iff)
  then have "row_items (last (prs_rows s)) = []"
    using assms(3) by (rule row_items_empty)
  moreover have "prs_rows s = butlast (prs_rows s) @ [last (prs_rows s)]"
    using assms(2) by simp
  ultimately show "items (s\<lparr>prs_rows := butlast (prs_rows s)\<rparr>) = items s"
    by (metis (no_types, lifting) items_snoc append_Nil items_def
        PriorityRowStack.select_convs(4) PriorityRowStack.surjective
        PriorityRowStack.update_convs(4))
qed

subsection \<open>\<open>push\<close>, \<open>peek\<close> and \<open>pop\<close> under the invariant\<close>

lemma set_top_last: "prs_rows s \<noteq> [] \<Longrightarrow> set_top s (last (prs_rows s)) = s"
  by (simp add: set_top_def)

lemma push_bad_priority:
  assumes "prs_inv s" "\<not> (needs_row s \<and> at_limit s)" "\<not> (1 \<le> p \<and> p \<le> prs_n s)"
  shows "push s x p = (Inl PriorityError, s\<lparr>prs_rows := opened s\<rparr>)"
proof -
  let ?s1 = "s\<lparr>prs_rows := opened s\<rparr>"
  note o = opened_inv [OF assms(1,2)]
  from o have "row_inv (prs_k s) (prs_n s) (last (opened s))"
    by (auto simp: prs_inv_def list_all_iff)
  then have "row_n (last (opened s)) = prs_n s" by (simp add: row_inv_def)
  with assms(3) have "row_push (last (opened s)) x p = (Inl PriorityError, last (opened s))"
    by (simp add: row_push_bad_priority)
  moreover have "set_top ?s1 (last (opened s)) = ?s1"
    using o(2) by (simp add: set_top_def)
  ultimately show ?thesis
    using o(2) by (simp add: push_def ensure_top_row_ok [OF assms(1,2)])
qed

lemma push_good:
  assumes "prs_inv s" "\<not> (needs_row s \<and> at_limit s)" "1 \<le> p" "p \<le> prs_n s"
  shows "\<exists>r. push s x p = (Inr (), s\<lparr>prs_rows := butlast (opened s) @ [r],
                                       prs_size := prs_size s + 1\<rparr>)
           \<and> fst (row_push (last (opened s)) x p) = Inr ()
           \<and> r = snd (row_push (last (opened s)) x p)
           \<and> count r = count (last (opened s)) + 1
           \<and> prs_inv (s\<lparr>prs_rows := butlast (opened s) @ [r], prs_size := prs_size s + 1\<rparr>)"
proof -
  let ?s1 = "s\<lparr>prs_rows := opened s\<rparr>"
  note o = opened_inv [OF assms(1,2)]
  from o have "row_inv (prs_k s) (prs_n s) (last (opened s))"
    by (auto simp: prs_inv_def list_all_iff)
  from row_push_ok [OF this assms(3,4) o(3), of x] obtain r where
    r: "row_push (last (opened s)) x p = (Inr (), r)" "row_inv (prs_k s) (prs_n s) r"
       "count r = count (last (opened s)) + 1"
    by blast
  have "prs_inv (?s1\<lparr>prs_rows := butlast (prs_rows ?s1) @ [r],
          prs_size := prs_size ?s1 + count r - count (last (prs_rows ?s1))\<rparr>)"
    using o(1,2) r(2) by (intro prs_inv_set_top) simp_all
  then have "prs_inv (s\<lparr>prs_rows := butlast (opened s) @ [r], prs_size := prs_size s + 1\<rparr>)"
    using r(3) by simp
  moreover have "push s x p = (Inr (), s\<lparr>prs_rows := butlast (opened s) @ [r],
                                       prs_size := prs_size s + 1\<rparr>)"
    using o(2) r(1) by (simp add: push_def ensure_top_row_ok [OF assms(1,2)] set_top_def)
  ultimately show ?thesis using r by simp
qed

lemma push_inv: "prs_inv s \<Longrightarrow> prs_inv (snd (push s x p))"
proof -
  assume inv: "prs_inv s"
  show ?thesis
  proof (cases "needs_row s \<and> at_limit s")
    case True
    with inv show ?thesis by (simp add: push_limit)
  next
    case False
    show ?thesis
    proof (cases "1 \<le> p \<and> p \<le> prs_n s")
      case True
      with push_good [OF inv False, of p x] show ?thesis by auto
    next
      case False
      with push_bad_priority [OF inv \<open>\<not> (needs_row s \<and> at_limit s)\<close>, of p x]
        opened_inv(1) [OF inv \<open>\<not> (needs_row s \<and> at_limit s)\<close>]
      show ?thesis by simp
    qed
  qed
qed

lemma pruned:
  assumes "prs_inv s" "prs_size s \<noteq> 0"
  shows "prs_inv (s\<lparr>prs_rows := prune (prs_rows s)\<rparr>)"
    and "items (s\<lparr>prs_rows := prune (prs_rows s)\<rparr>) = items s"
    and "prune (prs_rows s) \<noteq> []"
    and "count (last (prune (prs_rows s))) \<noteq> 0"
    and "prune (prs_rows s) =
           (if count (last (prs_rows s)) = 0 then butlast (prs_rows s) else prs_rows s)"
proof -
  have ne: "prs_rows s \<noteq> []" using assms by (auto simp: prs_inv_def)
  have p: "prune (prs_rows s) =
           (if count (last (prs_rows s)) = 0 then butlast (prs_rows s) else prs_rows s)"
    using prune_full [of "prs_k s" "prs_rows s"] assms(1) ne by (simp add: prs_inv_def)
  show "prune (prs_rows s) =
           (if count (last (prs_rows s)) = 0 then butlast (prs_rows s) else prs_rows s)"
    by (rule p)
  show "prs_inv (s\<lparr>prs_rows := prune (prs_rows s)\<rparr>)"
    using prs_inv_drop_empty(1) [OF assms(1) ne] assms(1) by (simp add: p)
  show "items (s\<lparr>prs_rows := prune (prs_rows s)\<rparr>) = items s"
    using prs_inv_drop_empty(2) [OF assms(1) ne] by (simp add: p items_def)
  show "prune (prs_rows s) \<noteq> []" "count (last (prune (prs_rows s))) \<noteq> 0"
  proof -
    have "prune (prs_rows s) \<noteq> [] \<and> count (last (prune (prs_rows s))) \<noteq> 0"
    proof (cases "count (last (prs_rows s)) = 0")
      case False
      with ne show ?thesis by (simp add: p)
    next
      case True
      with assms sum_count_snoc [OF ne] have s: "sum_list (map count (butlast (prs_rows s))) \<noteq> 0"
        by (simp add: prs_inv_def)
      then have b: "butlast (prs_rows s) \<noteq> []" by auto
      then have "last (butlast (prs_rows s)) \<in> set (butlast (prs_rows s))" by simp
      with assms(1) have "count (last (butlast (prs_rows s))) = prs_k s"
        by (auto simp: prs_inv_def list_all_iff)
      with assms(1) True b show ?thesis by (simp add: p prs_inv_def)
    qed
    then show "prune (prs_rows s) \<noteq> []" "count (last (prune (prs_rows s))) \<noteq> 0"
      by simp_all
  qed
qed

lemma items_hd_tl:
  assumes "rs \<noteq> []" "row_items (last rs) \<noteq> []"
  shows "hd (concat (map row_items (rev rs))) = hd (row_items (last rs))"
    and "tl (concat (map row_items (rev rs)))
         = tl (row_items (last rs)) @ concat (map row_items (rev (butlast rs)))"
proof -
  from assms(1) obtain bl r where "rs = bl @ [r]"
    by (cases rs rule: rev_cases) auto
  with assms(2) show "hd (concat (map row_items (rev rs))) = hd (row_items (last rs))"
    and "tl (concat (map row_items (rev rs)))
         = tl (row_items (last rs)) @ concat (map row_items (rev (butlast rs)))"
    by simp_all
qed

lemma peek_ok:
  assumes "prs_inv s" "prs_size s \<noteq> 0"
  shows "peek s = (Inr (hd (items s)), s\<lparr>prs_rows := prune (prs_rows s)\<rparr>)"
proof -
  let ?rs = "prune (prs_rows s)"
  let ?s1 = "s\<lparr>prs_rows := ?rs\<rparr>"
  note p = pruned [OF assms]
  from p(1,3) have ri: "row_inv (prs_k s) (prs_n s) (last ?rs)"
    by (auto simp: prs_inv_def list_all_iff)
  then have "row_items (last ?rs) \<noteq> []"
    using p(4) row_items_length [OF ri] by auto
  then have "hd (items s) = hd (row_items (last ?rs))"
    using items_hd_tl(1) [OF p(3)] p(2) by (simp add: items_def)
  moreover have "set_top ?s1 (last ?rs) = ?s1"
    using p(3) by (simp add: set_top_def)
  ultimately show ?thesis
    using assms(2) p(3) row_peek_ok [OF ri p(4)] by (simp add: peek_def Let_def)
qed

lemma pop_ok:
  assumes "prs_inv s" "prs_size s \<noteq> 0"
  shows "\<exists>s'. pop s = (Inr (hd (items s)), s') \<and> prs_inv s' \<and> items s' = tl (items s)
           \<and> prs_size s' = prs_size s - 1
           \<and> prs_k s' = prs_k s \<and> prs_n s' = prs_n s \<and> prs_m s' = prs_m s
           \<and> length (prs_rows s') \<le> length (prs_rows s)"
proof -
  let ?rs = "prune (prs_rows s)"
  let ?s1 = "s\<lparr>prs_rows := ?rs\<rparr>"
  note p = pruned [OF assms]
  from p(1,3) have ri: "row_inv (prs_k s) (prs_n s) (last ?rs)"
    by (auto simp: prs_inv_def list_all_iff)
  then have ne: "row_items (last ?rs) \<noteq> []"
    using p(4) row_items_length [OF ri] by auto
  have h: "hd (items s) = hd (row_items (last ?rs))"
    using items_hd_tl(1) [OF p(3) ne] p(2) by (simp add: items_def)
  have t: "tl (items s) = tl (row_items (last ?rs)) @ concat (map row_items (rev (butlast ?rs)))"
    using items_hd_tl(2) [OF p(3) ne] p(2) by (simp add: items_def)
  from row_pop_ok [OF ri p(4)] obtain r where
    r: "row_pop (last ?rs) = (Inr (hd (items s)), r)" "row_inv (prs_k s) (prs_n s) r"
       "row_items r = tl (row_items (last ?rs))" "count r = count (last ?rs) - 1"
    using h by auto
  let ?s2 = "s\<lparr>prs_rows := butlast ?rs @ [r], prs_size := prs_size s - 1\<rparr>"
  have "prs_inv (?s1\<lparr>prs_rows := butlast (prs_rows ?s1) @ [r],
          prs_size := prs_size ?s1 + count r - count (last (prs_rows ?s1))\<rparr>)"
    using p(1,3) r(2) by (intro prs_inv_set_top) simp_all
  then have inv2: "prs_inv ?s2" using r(4) by simp
  have it2: "items ?s2 = tl (items s)"
    using t r(3) by (simp add: items_def)
  have len: "length ?rs \<le> length (prs_rows s)" by (simp add: p(5))
  show ?thesis
  proof (cases "count r = 0")
    case True
    have "pop s = (Inr (hd (items s)), ?s2\<lparr>prs_rows := butlast (prs_rows ?s2)\<rparr>)"
      using assms(2) p(3) r(1) True
      by (simp add: pop_def Let_def set_top_def row_is_empty_def)
    moreover have "prs_inv (?s2\<lparr>prs_rows := butlast (prs_rows ?s2)\<rparr>)"
      using True by (intro prs_inv_drop_empty(1) [OF inv2]) simp_all
    moreover have "items (?s2\<lparr>prs_rows := butlast (prs_rows ?s2)\<rparr>) = tl (items s)"
      using True prs_inv_drop_empty(2) [OF inv2] it2 by simp
    ultimately show ?thesis using len by simp
  next
    case False
    have "pop s = (Inr (hd (items s)), ?s2)"
      using assms(2) p(3) r(1) False
      by (simp add: pop_def Let_def set_top_def row_is_empty_def)
    with inv2 it2 len p(3) show ?thesis by simp
  qed
qed

lemma peek_empty: "prs_size s = 0 \<Longrightarrow> peek s = (Inl EmptyError, s)"
  by (simp add: peek_def)

lemma pop_empty: "prs_size s = 0 \<Longrightarrow> pop s = (Inl EmptyError, s)"
  by (simp add: pop_def)

lemma pop_inv: "prs_inv s \<Longrightarrow> prs_inv (snd (pop s))"
  using pop_ok [of s] pop_empty [of s] by (cases "prs_size s = 0") auto

lemma peek_inv: "prs_inv s \<Longrightarrow> prs_inv (snd (peek s))"
  using peek_ok [of s] pruned(1) [of s] peek_empty [of s] by (cases "prs_size s = 0") auto

lemma reachable_inv: "reachable s \<Longrightarrow> prs_inv s"
  by (induction rule: reachable.induct) (simp_all add: new_PRS_inv push_inv pop_inv peek_inv)

subsection \<open>Stacks built through the interface\<close>

lemma reachable_fresh_None: "0 < k \<Longrightarrow> 0 < n \<Longrightarrow> reachable (fresh_PRS k n None)"
  by (rule reach_new [of k n None]) (simp add: new_PRS_def fresh_PRS_def)

lemma reachable_fresh_Some:
  "0 < k \<Longrightarrow> 0 < n \<Longrightarrow> 0 < mv \<Longrightarrow> reachable (fresh_PRS k n (Some mv))"
  by (rule reach_new [of k n "Some mv"]) (simp add: new_PRS_def fresh_PRS_def)

lemma reachable_pushes: "reachable s \<Longrightarrow> reachable (pushes s xs)"
  by (induction s xs rule: pushes.induct) (simp_all add: reach_push)

section \<open>Popping until the stack is empty\<close>

lemma recompute_buckets: "buckets (snd (recompute_top_priority r)) = buckets r"
  by (simp add: recompute_top_priority_def split: sum.splits)

lemma refresh_buckets: "buckets (snd (refresh_top r)) = buckets r"
  by (simp add: refresh_top_def recompute_buckets)

lemma row_pop_InrD:
  assumes "row_pop r = (Inr x, r')"
  shows "\<exists>t. t < length (buckets r) \<and> buckets r ! t \<noteq> []
             \<and> buckets r' = (buckets r)[t := butlast (buckets r ! t)]"
proof -
  from assms have ne: "\<not> row_is_empty r"
    by (cases "row_is_empty r") (simp_all add: row_pop_def)
  obtain e r1 where r1: "refresh_top r = (e, r1)" by (cases "refresh_top r")
  then have b1: "buckets r1 = buckets r" using refresh_buckets [of r] by simp
  from assms ne r1 obtain u where e: "e = Inr u"
    by (cases e) (simp_all add: row_pop_def)
  from assms ne r1 e obtain t where t: "top_priority_idx r1 = Some t"
    by (cases "top_priority_idx r1") (simp_all add: row_pop_def)
  from assms ne r1 e t have tl: "t < length (buckets r1)"
    by (cases "t < length (buckets r1)") (simp_all add: row_pop_def)
  from assms ne r1 e t tl have tn: "buckets r1 ! t \<noteq> []"
    by (cases "buckets r1 ! t = []") (simp_all add: row_pop_def)
  let ?r2 = "r1\<lparr>buckets := (buckets r1)[t := butlast (buckets r1 ! t)], count := count r1 - 1\<rparr>"
  have "buckets r' = buckets ?r2"
  proof (cases "butlast (buckets r1 ! t) = []")
    case False
    with assms ne r1 e t tl tn show ?thesis
      by (simp add: row_pop_def Let_def)
  next
    case True
    obtain e3 r3 where r3: "recompute_top_priority ?r2 = (e3, r3)"
      by (cases "recompute_top_priority ?r2")
    then have b3: "buckets r3 = buckets ?r2" using recompute_buckets [of ?r2] by simp
    from assms ne r1 e t tl tn True r3 have "r' = r3"
      by (cases e3) (simp_all add: row_pop_def Let_def)
    with b3 show ?thesis by simp
  qed
  with tl tn b1 show ?thesis by auto
qed

lemma row_pop_stored:
  assumes "row_pop r = (Inr x, r')"
  shows "sum_list (map length (buckets r')) < sum_list (map length (buckets r))"
proof -
  from row_pop_InrD [OF assms] obtain t where t: "t < length (buckets r)"
    "buckets r ! t \<noteq> []" "buckets r' = (buckets r)[t := butlast (buckets r ! t)]"
    by blast
  then have p: "0 < length (buckets r ! t)" by simp
  have q: "sum_list (map length ((buckets r)[t := butlast (buckets r ! t)]))
             + length (buckets r ! t)
           = sum_list (map length (buckets r)) + (length (buckets r ! t) - 1)"
    using sum_length_update [of t "buckets r" "butlast (buckets r ! t)"] t(1) by simp
  show ?thesis unfolding t(3) using p q by linarith
qed

lemma prune_sum_le:
  fixes f :: "'a PRSRow \<Rightarrow> nat"
  shows "sum_list (map f (prune rs)) \<le> sum_list (map f rs)"
proof (induction rs rule: prune.induct)
  case (1 rs)
  show ?case
  proof (cases "rs \<noteq> [] \<and> row_is_empty (last rs)")
    case True
    have "sum_list (map f (butlast rs @ [last rs])) = sum_list (map f (butlast rs)) + f (last rs)"
      by simp
    with True have "sum_list (map f rs) = sum_list (map f (butlast rs)) + f (last rs)"
      by simp
    with 1 True show ?thesis by (simp add: prune.simps [of rs])
  next
    case False
    then show ?thesis by (auto simp: prune.simps [of rs])
  qed
qed

lemma pop_InrD:
  assumes "pop s = (Inr x, s')"
  shows "\<exists>r. prune (prs_rows s) \<noteq> [] \<and> row_pop (last (prune (prs_rows s))) = (Inr x, r)
             \<and> (prs_rows s' = butlast (prune (prs_rows s)) @ [r]
                  \<or> prs_rows s' = butlast (prune (prs_rows s)))"
proof -
  let ?rs = "prune (prs_rows s)"
  from assms have nz: "prs_size s \<noteq> 0"
    by (cases "prs_size s = 0") (simp_all add: pop_def)
  from assms nz have ne: "?rs \<noteq> []"
    by (cases "?rs = []") (simp_all add: pop_def Let_def)
  obtain e r where r: "row_pop (last ?rs) = (e, r)" by (cases "row_pop (last ?rs)")
  from assms nz ne r have e: "e = Inr x"
    by (cases e) (simp_all add: pop_def Let_def split: if_splits)
  from assms nz ne r e have "prs_rows s' = butlast ?rs @ [r] \<or> prs_rows s' = butlast ?rs"
    by (cases "row_is_empty r") (auto simp: pop_def Let_def set_top_def)
  with ne r e show ?thesis by blast
qed

lemma pop_stored:
  assumes "pop s = (Inr x, s')"
  shows "stored s' < stored s"
proof -
  let ?f = "\<lambda>r::'a PRSRow. sum_list (map length (buckets r))"
  let ?rs = "prune (prs_rows s)"
  from pop_InrD [OF assms] obtain r where ne: "?rs \<noteq> []"
    and r: "row_pop (last ?rs) = (Inr x, r)"
    and s': "prs_rows s' = butlast ?rs @ [r] \<or> prs_rows s' = butlast ?rs"
    by blast
  from s' have "stored s' \<le> sum_list (map ?f (butlast ?rs)) + ?f r"
    by (auto simp: stored_def)
  also have "\<dots> < sum_list (map ?f (butlast ?rs)) + ?f (last ?rs)"
    using row_pop_stored [OF r] by simp
  also have "\<dots> = sum_list (map ?f (butlast ?rs @ [last ?rs]))" by simp
  also have "\<dots> = sum_list (map ?f ?rs)" using ne by simp
  also have "\<dots> \<le> stored s" unfolding stored_def by (rule prune_sum_le)
  finally show ?thesis .
qed

text \<open>
  \<open>drain\<close> is the loop \<open>while not prs.is_empty(): out.append(prs.pop())\<close> of a caller,
  stopped by the first exception. It ends on every stack, reachable or not: a \<open>pop\<close> that
  returns an item has taken it out of a bucket, so \<open>stored\<close>, the number of items in all
  buckets, goes down.
\<close>

function drain :: "'a PriorityRowStack \<Rightarrow> error + 'a list" where
  "drain s =
     (if is_empty s then Inr []
      else (case pop s of
              (Inl e, s') \<Rightarrow> Inl e
            | (Inr item, s') \<Rightarrow>
                (case drain s' of Inl e \<Rightarrow> Inl e | Inr xs \<Rightarrow> Inr (item # xs))))"
  by pat_completeness auto
termination
proof (relation "measure stored")
  show "wf (measure stored)" by simp
next
  fix s :: "'a PriorityRowStack" and x1 x2 item
  assume "(x1, x2) = pop s" "x1 = Inr item"
  then have "pop s = (Inr item, x2)" by simp
  then show "(x2, s) \<in> measure stored" by (simp add: pop_stored)
qed

declare drain.simps [simp del]

lemma drain_items:
  "prs_inv s \<Longrightarrow> length (items s) = l \<Longrightarrow> drain s = Inr (items s)"
proof (induction l arbitrary: s)
  case 0
  then have "prs_size s = 0" by (simp add: size_items)
  with 0 show ?case by (simp add: drain.simps [of s] is_empty_def)
next
  case (Suc l)
  then have nz: "prs_size s \<noteq> 0" by (simp add: size_items)
  from pop_ok [OF Suc.prems(1) nz] obtain s' where
    s': "pop s = (Inr (hd (items s)), s')" "prs_inv s'" "items s' = tl (items s)"
    by blast
  with Suc.prems have "length (items s') = l" by simp
  with Suc.IH s' have "drain s' = Inr (tl (items s))" by simp
  moreover from Suc.prems have "items s \<noteq> []" by auto
  ultimately show ?case
    using nz s'(1) by (simp add: drain.simps [of s] is_empty_def)
qed

section \<open>The three outcomes of \<open>push\<close>\<close>

lemma new_PRS_fresh:
  "0 < k \<Longrightarrow> 0 < n \<Longrightarrow> (case m of None \<Rightarrow> True | Some mv \<Rightarrow> 0 < mv)
   \<Longrightarrow> new_PRS k n m = Inr (fresh_PRS k n m)"
  by (auto simp: new_PRS_def fresh_PRS_def split: option.splits)

lemma opened_items:
  assumes "prs_inv s"
  shows "items (s\<lparr>prs_rows := opened s\<rparr>) = items s"
proof -
  have "row_items (empty_row (prs_k s) (prs_n s) :: 'a PRSRow) = []"
    by (simp add: row_items_def empty_row_def)
  then show ?thesis by (simp add: items_def opened_def)
qed

lemma opened_take: "take (length (prs_rows s)) (opened s) = prs_rows s"
  by (simp add: opened_def)

lemma push_cases:
  assumes "prs_inv s"
  shows "(needs_row s \<and> at_limit s \<and> push s x p = (Inl PRSError, s))
       \<or> (\<not> (needs_row s \<and> at_limit s) \<and> \<not> (1 \<le> p \<and> p \<le> prs_n s)
           \<and> push s x p = (Inl PriorityError, s\<lparr>prs_rows := opened s\<rparr>))
       \<or> (\<not> (needs_row s \<and> at_limit s) \<and> 1 \<le> p \<and> p \<le> prs_n s
           \<and> (\<exists>r. push s x p = (Inr (), s\<lparr>prs_rows := butlast (opened s) @ [r],
                                              prs_size := prs_size s + 1\<rparr>)))"
proof (cases "needs_row s \<and> at_limit s")
  case True
  then show ?thesis by (simp add: push_limit)
next
  case False
  show ?thesis
  proof (cases "1 \<le> p \<and> p \<le> prs_n s")
    case True
    with push_good [OF assms False, of p x] False show ?thesis by blast
  next
    case np: False
    with push_bad_priority [OF assms False, of p x] False show ?thesis by blast
  qed
qed

lemma at_limit_eq:
  assumes "prs_inv s"
  shows "at_limit s \<longleftrightarrow> (\<exists>mv. prs_m s = Some mv \<and> int (rows_count s) = mv)"
  using assms
  by (auto simp: at_limit_def prs_inv_def m_allows_def rows_count_def split: option.splits)

section \<open>Runs of calls\<close>

lemma step_inv: "prs_inv s \<Longrightarrow> prs_inv (step s c)"
  by (cases c) (simp_all add: push_inv peek_inv pop_inv)

lemma run_inv: "prs_inv s \<Longrightarrow> prs_inv (run s cs)"
  by (induction cs arbitrary: s) (simp_all add: step_inv)

lemma reachable_run: "reachable s \<Longrightarrow> reachable (run s cs)"
proof (induction cs arbitrary: s)
  case Nil
  then show ?case by simp
next
  case (Cons c cs)
  from Cons.prems have "reachable (step s c)"
    by (cases c) (simp_all add: reach_push reach_peek reach_pop)
  then show ?case by (simp add: Cons.IH)
qed

lemma push_size:
  assumes "prs_inv s"
  shows "prs_size (snd (push s x p))
         = prs_size s + (if isl (fst (push s x p)) then 0 else 1)"
  using push_cases [OF assms, of x p] by auto

lemma pop_size:
  assumes "prs_inv s"
  shows "prs_size (snd (pop s)) = prs_size s - (if isl (fst (pop s)) then 0 else 1)"
proof (cases "prs_size s = 0")
  case True
  then show ?thesis by (simp add: pop_empty)
next
  case False
  from pop_ok [OF assms False] show ?thesis by auto
qed

lemma peek_size: "prs_inv s \<Longrightarrow> prs_size (snd (peek s)) = prs_size s"
  using peek_ok [of s] peek_empty [of s] by (cases "prs_size s = 0") simp_all

lemma step_size:
  assumes "prs_inv s"
  shows "prs_size (step s c)
         = prs_size s + (if is_push c \<and> returned s c then 1 else 0)
                      - (if c = Pop \<and> returned s c then 1 else 0)"
  using assms by (cases c) (simp_all add: push_size pop_size peek_size)

lemma run_size:
  "prs_inv s \<Longrightarrow>
   prs_size (run s cs) = prs_size s + pushes_accepted s cs - pops_performed s cs"
proof (induction cs arbitrary: s)
  case Nil
  then show ?case by simp
next
  case (Cons c cs)
  from Cons.prems have "prs_inv (step s c)" by (rule step_inv)
  from Cons.IH [OF this] step_size [OF Cons.prems, of c] show ?case by simp
qed

lemma pops_performed_pushes:
  "list_all is_push cs \<Longrightarrow> pops_performed s cs = 0"
  by (induction cs arbitrary: s) auto

section \<open>The row implements the retrieval rule\<close>

lemma filter_remove_first_same:
  "filter P (remove_first P xs) = tl (filter P xs)"
  by (induction xs) auto

lemma filter_remove_first_other:
  "(\<And>x. Q x \<Longrightarrow> \<not> P x) \<Longrightarrow> filter Q (remove_first P xs) = filter Q xs"
  by (induction xs) auto

lemma length_remove_first:
  "\<exists>x \<in> set xs. P x \<Longrightarrow> Suc (length (remove_first P xs)) = length xs"
  by (induction xs) auto

lemma set_remove_first: "set (remove_first P xs) \<subseteq> set xs"
  by (induction xs) auto

lemma bucket_of_snoc:
  "bucket_of (h @ [(x, p)]) i = (if p = int i + 1 then bucket_of h i @ [x] else bucket_of h i)"
  by (simp add: bucket_of_def)

lemma rev_tl_rev: "rev (tl (rev xs)) = butlast xs"
  by (metis butlast_rev rev_rev_ident rev_swap)

lemma bucket_of_remove:
  "bucket_of (rev (remove_first (\<lambda>e. snd e = q) (rev h))) i
   = (if q = int i + 1 then butlast (bucket_of h i) else bucket_of h i)"
proof (cases "q = int i + 1")
  case True
  have "filter (\<lambda>e. snd e = q) (rev (remove_first (\<lambda>e. snd e = q) (rev h)))
        = rev (tl (rev (filter (\<lambda>e. snd e = q) h)))"
    by (simp add: rev_filter [symmetric] filter_remove_first_same)
  then show ?thesis
    using True by (simp add: bucket_of_def rev_tl_rev map_butlast)
next
  case False
  have "filter (\<lambda>e. snd e = int i + 1) (remove_first (\<lambda>e. snd e = q) (rev h))
        = filter (\<lambda>e. snd e = int i + 1) (rev h)"
    using False by (intro filter_remove_first_other) simp
  then have "filter (\<lambda>e. snd e = int i + 1) (rev (remove_first (\<lambda>e. snd e = q) (rev h)))
        = filter (\<lambda>e. snd e = int i + 1) h"
    by (simp add: rev_filter [symmetric])
  with False show ?thesis by (simp add: bucket_of_def)
qed

lemma row_rel_new:
  assumes "0 < k" "0 < n"
  shows "row_rel k n (empty_row k n) []"
proof -
  have "map (bucket_of ([] :: 'a history)) [0..<nat n] = replicate (nat n) []"
    by (rule nth_equalityI) (simp_all add: bucket_of_def)
  then show ?thesis
    using assms row_inv_new [OF assms] by (simp add: row_rel_def empty_row_def)
qed

lemma row_rel_push:
  assumes "row_rel k n r h"
  shows "row_rel k n (snd (row_push r x p)) (spec_step k n h (Push x p))"
proof -
  from assms have inv: "row_inv k n r" and pr: "list_all (\<lambda>e. 1 \<le> snd e \<and> snd e \<le> n) h"
    and c: "count r = int (length h)" and b: "buckets r = map (bucket_of h) [0..<nat n]"
    by (simp_all add: row_rel_def)
  from inv have kn: "row_k r = k" "row_n r = n" by (simp_all add: row_inv_def)
  show ?thesis
  proof (cases "1 \<le> p \<and> p \<le> n")
    case False
    with kn assms show ?thesis by (auto simp: row_push_bad_priority)
  next
    case True
    show ?thesis
    proof (cases "count r < k")
      case False
      with True kn have "row_push r x p = (Inl RowFullError, r)"
        by (simp add: row_push_def row_is_full_def)
      with False c assms show ?thesis by simp
    next
      case lt: True
      from True have p1: "1 \<le> p" and p2: "p \<le> n" by simp_all
      from row_push_ok [OF inv p1 p2 lt, of x] obtain r' where
        r': "row_push r x p = (Inr (), r')" "row_inv k n r'"
            "buckets r' = (buckets r)[nat (p - 1) := buckets r ! nat (p - 1) @ [x]]"
            "count r' = count r + 1"
        by blast
      let ?h = "h @ [(x, p)]"
      have "buckets r' = map (bucket_of ?h) [0..<nat n]"
      proof (rule nth_equalityI)
        show "length (buckets r') = length (map (bucket_of ?h) [0..<nat n])"
          by (simp add: r'(3) b)
      next
        fix i assume "i < length (buckets r')"
        then have i: "i < nat n" by (simp add: r'(3) b)
        have eq: "p = int i + 1 \<longleftrightarrow> i = nat (p - 1)" using p1 by auto
        show "buckets r' ! i = map (bucket_of ?h) [0..<nat n] ! i"
        proof (cases "i = nat (p - 1)")
          case True
          with i have "nat (p - 1) < length (buckets r)" by (simp add: b)
          then have "buckets r' ! nat (p - 1) = buckets r ! nat (p - 1) @ [x]"
            by (simp add: r'(3))
          with True i eq show ?thesis by (simp add: b bucket_of_snoc)
        next
          case False
          with i eq show ?thesis by (simp add: r'(3) b bucket_of_snoc)
        qed
      qed
      with r' pr c True lt show ?thesis by (simp add: row_rel_def)
    qed
  qed
qed

lemma row_rel_top:
  assumes "row_rel k n r h" "h \<noteq> []"
  shows "\<exists>t. top_priority_idx r = Some t \<and> t < nat n \<and> spec_lowest h = int t + 1
              \<and> bucket_of h t \<noteq> [] \<and> buckets r ! t = bucket_of h t"
proof -
  from assms have inv: "row_inv k n r" and pr: "list_all (\<lambda>e. 1 \<le> snd e \<and> snd e \<le> n) h"
    and c: "count r \<noteq> 0" and b: "buckets r = map (bucket_of h) [0..<nat n]"
    by (simp_all add: row_rel_def)
  from row_inv_top_Some [OF inv c] obtain t where
    t: "top_priority_idx r = Some t" "top_ok (buckets r) (Some t)" by blast
  then have tl': "t < length (buckets r)" and ne: "buckets r ! t \<noteq> []"
    and em: "list_all (\<lambda>b. b = []) (take t (buckets r))"
    by (simp_all add: top_ok_def)
  from tl' have tl: "t < nat n" by (simp add: b)
  from tl have bt: "buckets r ! t = bucket_of h t" by (simp add: b)
  have "Min (set (map snd h)) = int t + 1"
  proof (rule Min_eqI)
    show "finite (set (map snd h))" by simp
  next
    from ne bt have "filter (\<lambda>e. snd e = int t + 1) h \<noteq> []" by (simp add: bucket_of_def)
    then obtain e where "e \<in> set h" "snd e = int t + 1"
      by (auto simp: filter_empty_conv)
    then show "int t + 1 \<in> set (map snd h)" by force
  next
    fix y assume "y \<in> set (map snd h)"
    then obtain e where e: "e \<in> set h" "snd e = y" by auto
    with pr have y: "1 \<le> y" "y \<le> n" by (auto simp: list_all_iff)
    let ?i = "nat (y - 1)"
    from y have i: "?i < nat n" "int ?i + 1 = y" by auto
    from e have "e \<in> set (filter (\<lambda>e. snd e = y) h)" by simp
    then have "filter (\<lambda>e. snd e = y) h \<noteq> []" by (metis empty_iff empty_set)
    then have "bucket_of h ?i \<noteq> []" unfolding bucket_of_def i(2) by simp
    with i have nei: "buckets r ! ?i \<noteq> []" by (simp add: b)
    have "\<not> ?i < t"
    proof
      assume lt: "?i < t"
      with tl have "buckets r ! ?i \<in> set (take t (buckets r))"
        by (auto simp: in_set_conv_nth b intro!: exI [of _ ?i])
      with em nei show False by (auto simp: list_all_iff)
    qed
    with i show "int t + 1 \<le> y" by linarith
  qed
  with t tl ne bt show ?thesis by (simp add: spec_lowest_def)
qed

lemma row_rel_next:
  assumes "row_rel k n r h"
  shows "fst (row_peek r) = (case spec_next h of None \<Rightarrow> Inl EmptyError | Some x \<Rightarrow> Inr x)"
    and "fst (row_pop r) = (case spec_next h of None \<Rightarrow> Inl EmptyError | Some x \<Rightarrow> Inr x)"
    and "snd (row_peek r) = r"
proof -
  from assms have inv: "row_inv k n r" and c: "count r = int (length h)"
    by (simp_all add: row_rel_def)
  have "fst (row_peek r) = (case spec_next h of None \<Rightarrow> Inl EmptyError | Some x \<Rightarrow> Inr x)
      \<and> fst (row_pop r) = (case spec_next h of None \<Rightarrow> Inl EmptyError | Some x \<Rightarrow> Inr x)
      \<and> snd (row_peek r) = r"
  proof (cases "h = []")
    case True
    with c show ?thesis by (simp add: row_empty_ops spec_next_def)
  next
    case False
    with c have nz: "count r \<noteq> 0" by simp
    from row_rel_top [OF assms False] obtain t where
      t: "top_priority_idx r = Some t" "spec_lowest h = int t + 1"
         "bucket_of h t \<noteq> []" "buckets r ! t = bucket_of h t"
      by blast
    from row_inv_top_Some [OF inv nz] t(1) have "top_ok (buckets r) (Some t)" by simp
    then have "hd (row_items r) = last (buckets r ! t)"
      by (simp add: row_items_def top_ok_Some_hd)
    also have "\<dots> = fst (last (filter (\<lambda>e. snd e = int t + 1) h))"
      using t(3,4) by (simp add: bucket_of_def last_map)
    finally have "spec_next h = Some (hd (row_items r))"
      using False t(2) by (simp add: spec_next_def)
    moreover from row_pop_ok [OF inv nz] have "fst (row_pop r) = Inr (hd (row_items r))"
      by auto
    ultimately show ?thesis by (simp add: row_peek_ok [OF inv nz])
  qed
  then show "fst (row_peek r) = (case spec_next h of None \<Rightarrow> Inl EmptyError | Some x \<Rightarrow> Inr x)"
    and "fst (row_pop r) = (case spec_next h of None \<Rightarrow> Inl EmptyError | Some x \<Rightarrow> Inr x)"
    and "snd (row_peek r) = r"
    by simp_all
qed

lemma row_pop_buckets:
  assumes "row_inv k n r" "count r \<noteq> 0" "top_priority_idx r = Some t"
  shows "buckets (snd (row_pop r)) = (buckets r)[t := butlast (buckets r ! t)]"
proof -
  from row_inv_top_Some [OF assms(1,2)] assms(3) have "top_ok (buckets r) (Some t)" by simp
  then have tl: "t < length (buckets r)" and ne: "buckets r ! t \<noteq> []"
    by (simp_all add: top_ok_def)
  let ?r2 = "r\<lparr>buckets := (buckets r)[t := butlast (buckets r ! t)], count := count r - 1\<rparr>"
  show ?thesis
  proof (cases "butlast (buckets r ! t) = []")
    case False
    with assms tl ne have "row_pop r = (Inr (last (buckets r ! t)), ?r2)"
      by (simp add: row_pop_def row_is_empty_def refresh_top_def Let_def)
    then show ?thesis by simp
  next
    case True
    obtain e3 r3 where r3: "recompute_top_priority ?r2 = (e3, r3)"
      by (cases "recompute_top_priority ?r2")
    then have b3: "buckets r3 = buckets ?r2" using recompute_buckets [of ?r2] by simp
    from assms tl ne True r3 have "snd (row_pop r) = r3"
      by (cases e3) (simp_all add: row_pop_def row_is_empty_def refresh_top_def Let_def)
    with b3 show ?thesis by simp
  qed
qed

lemma row_rel_pop:
  assumes "row_rel k n r h"
  shows "row_rel k n (snd (row_pop r)) (spec_step k n h Pop)"
proof (cases "h = []")
  case True
  with assms have "count r = 0" by (simp add: row_rel_def)
  with True assms show ?thesis by (simp add: row_empty_ops)
next
  case False
  from assms have inv: "row_inv k n r" and pr: "list_all (\<lambda>e. 1 \<le> snd e \<and> snd e \<le> n) h"
    and c: "count r = int (length h)" and b: "buckets r = map (bucket_of h) [0..<nat n]"
    by (simp_all add: row_rel_def)
  from c False have nz: "count r \<noteq> 0" by simp
  from row_rel_top [OF assms False] obtain t where
    t: "top_priority_idx r = Some t" "t < nat n" "spec_lowest h = int t + 1"
       "bucket_of h t \<noteq> []"
    by blast
  let ?h = "spec_remove h"
  let ?r = "snd (row_pop r)"
  from row_pop_ok [OF inv nz] have inv': "row_inv k n ?r" and c': "count ?r = count r - 1"
    by auto
  have bk: "buckets ?r = (buckets r)[t := butlast (buckets r ! t)]"
    by (rule row_pop_buckets [OF inv nz t(1)])
  have sub: "set ?h \<subseteq> set h"
    using set_remove_first [of "\<lambda>e. snd e = spec_lowest h" "rev h"]
    by (simp add: spec_remove_def)
  with pr have pr': "list_all (\<lambda>e. 1 \<le> snd e \<and> snd e \<le> n) ?h"
    by (auto simp: list_all_iff)
  from t(4) have "filter (\<lambda>e. snd e = int t + 1) h \<noteq> []" by (simp add: bucket_of_def)
  then have "\<exists>e \<in> set (rev h). snd e = spec_lowest h"
    by (auto simp: filter_empty_conv t(3))
  from length_remove_first [of "rev h" "\<lambda>e. snd e = spec_lowest h", OF this]
  have len: "Suc (length ?h) = length h" by (simp add: spec_remove_def)
  have "buckets ?r = map (bucket_of ?h) [0..<nat n]"
  proof (rule nth_equalityI)
    show "length (buckets ?r) = length (map (bucket_of ?h) [0..<nat n])"
      by (simp add: bk b)
  next
    fix i assume "i < length (buckets ?r)"
    then have i: "i < nat n" by (simp add: bk b)
    show "buckets ?r ! i = map (bucket_of ?h) [0..<nat n] ! i"
      using i t(2)
      by (simp add: bk b spec_remove_def bucket_of_remove t(3) nth_list_update)
  qed
  with inv' pr' c c' len False show ?thesis by (simp add: row_rel_def)
qed

lemma row_rel_step:
  assumes "row_rel k n r h"
  shows "row_rel k n (row_step r c) (spec_step k n h c)"
proof (cases c)
  case (Push x p)
  with row_rel_push [OF assms] show ?thesis by simp
next
  case Peek
  with row_rel_next(3) [OF assms] assms show ?thesis by simp
next
  case Pop
  with row_rel_pop [OF assms] show ?thesis by simp
qed

lemma row_rel_run:
  "row_rel k n r h \<Longrightarrow> row_rel k n (row_run r cs) (spec_run k n h cs)"
  by (induction cs arbitrary: r h) (simp_all add: row_rel_step)

section \<open>The claims\<close>

text \<open>
  C1. After every sequence of calls on a new row, \<open>peek\<close> and \<open>pop\<close> of the row return
  the item the retrieval rule names for the items then in the row: the most recently
  pushed one among those of the numerically lowest priority present (\<open>EmptyError\<close> when
  the row holds nothing); bucket \<open>i\<close> of the row holds the items of priority \<open>i + 1\<close>
  oldest first, so within a priority the order is last in, first out. In particular, with
  \<open>k = 5\<close>, \<open>n = 2\<close>, after pushing \<open>x1\<close>, \<open>x2\<close>, \<open>x3\<close> at priority 1 the pops return
  \<open>x3\<close>, \<open>x2\<close>, \<open>x1\<close>, on the row and on a stack.
\<close>

theorem C1_row_retrieval_rule:
  assumes "new_PRSRow k n = Inr r0"
  shows "fst (row_peek (row_run r0 cs))
           = (case spec_next (spec_run k n [] cs) of
                None \<Rightarrow> Inl EmptyError | Some x \<Rightarrow> Inr x)
       \<and> fst (row_pop (row_run r0 cs))
           = (case spec_next (spec_run k n [] cs) of
                None \<Rightarrow> Inl EmptyError | Some x \<Rightarrow> Inr x)
       \<and> buckets (row_run r0 cs) = map (bucket_of (spec_run k n [] cs)) [0..<nat n]
       \<and> new_PRSRow 5 2 = Inr (empty_row 5 2 :: string PRSRow)
       \<and> fst (row_pop (row_run (empty_row 5 2)
                 [Push ''x1'' 1, Push ''x2'' 1, Push ''x3'' 1])) = Inr ''x3''
       \<and> fst (row_pop (row_run (empty_row 5 2)
                 [Push ''x1'' 1, Push ''x2'' 1, Push ''x3'' 1, Pop])) = Inr ''x2''
       \<and> fst (row_pop (row_run (empty_row 5 2)
                 [Push ''x1'' 1, Push ''x2'' 1, Push ''x3'' 1, Pop, Pop])) = Inr ''x1''
       \<and> fst (row_pop (row_run (empty_row 5 2)
                 [Push ''x1'' 1, Push ''x2'' 1, Push ''x3'' 1, Pop, Pop, Pop]))
           = Inl EmptyError
       \<and> drain (pushes (fresh_PRS 5 2 None) [(''x1'', 1), (''x2'', 1), (''x3'', 1)])
           = Inr [''x3'', ''x2'', ''x1'']"
proof -
  from assms have kn: "0 < k" "0 < n"
    by (auto simp: new_PRSRow_def split: if_splits)
  with assms have r0: "r0 = empty_row k n"
    by (simp add: new_PRSRow_ok empty_row_def)
  have "row_rel k n r0 []" unfolding r0 using kn by (rule row_rel_new)
  then have rel: "row_rel k n (row_run r0 cs) (spec_run k n [] cs)" by (rule row_rel_run)
  note a = row_rel_next(1) [OF rel] and b = row_rel_next(2) [OF rel]
  from rel have c: "buckets (row_run r0 cs) = map (bucket_of (spec_run k n [] cs)) [0..<nat n]"
    by (simp add: row_rel_def)
  have d: "new_PRSRow 5 2 = Inr (empty_row 5 2 :: string PRSRow)"
    by (simp add: new_PRSRow_ok empty_row_def)
  have e1: "fst (row_pop (row_run (empty_row 5 2)
                 [Push ''x1'' 1, Push ''x2'' 1, Push ''x3'' 1])) = Inr ''x3''"
    by code_simp
  have e2: "fst (row_pop (row_run (empty_row 5 2)
                 [Push ''x1'' 1, Push ''x2'' 1, Push ''x3'' 1, Pop])) = Inr ''x2''"
    by code_simp
  have e3: "fst (row_pop (row_run (empty_row 5 2)
                 [Push ''x1'' 1, Push ''x2'' 1, Push ''x3'' 1, Pop, Pop])) = Inr ''x1''"
    by code_simp
  have e4: "fst (row_pop (row_run (empty_row 5 2)
                 [Push ''x1'' 1, Push ''x2'' 1, Push ''x3'' 1, Pop, Pop, Pop]))
           = (Inl EmptyError :: error + string)"
    by code_simp
  have f: "drain (pushes (fresh_PRS 5 2 None) [(''x1'', 1), (''x2'', 1), (''x3'', 1)])
           = Inr [''x3'', ''x2'', ''x1'']"
    by code_simp
  show ?thesis by (intro conjI a b c d e1 e2 e3 e4 f)
qed

theorem C1_witness:
  "new_PRSRow 5 2 = Inr (empty_row 5 2 :: string PRSRow)
   \<and> spec_run 5 2 [] [Push ''a'' 2, Push ''b'' 1, Push ''c'' 2, Push ''d'' 1, Push ''e'' 7]
       = [(''a'', 2), (''b'', 1), (''c'', 2), (''d'', 1)]
   \<and> spec_next [(''a'', 2), (''b'', 1), (''c'', 2), (''d'', 1)] = Some ''d''
   \<and> fst (row_peek (row_run (empty_row 5 2)
        [Push ''a'' 2, Push ''b'' 1, Push ''c'' 2, Push ''d'' 1, Push ''e'' 7])) = Inr ''d''
   \<and> fst (row_pop (row_run (empty_row 5 2)
        [Push ''a'' 2, Push ''b'' 1, Push ''c'' 2, Push ''d'' 1, Push ''e'' 7])) = Inr ''d''
   \<and> buckets (row_run (empty_row 5 2)
        [Push ''a'' 2, Push ''b'' 1, Push ''c'' 2, Push ''d'' 1, Push ''e'' 7])
       = [[''b'', ''d''], [''a'', ''c'']]"
proof -
  let ?cs = "[Push ''a'' 2, Push ''b'' 1, Push ''c'' 2, Push ''d'' 1, Push ''e'' 7]"
  have n: "new_PRSRow 5 2 = Inr (empty_row 5 2 :: string PRSRow)"
    by (simp add: new_PRSRow_ok empty_row_def)
  have h: "spec_run 5 2 [] ?cs = [(''a'', 2), (''b'', 1), (''c'', 2), (''d'', 1)]"
    by code_simp
  have x: "spec_next [(''a'', 2), (''b'', 1), (''c'', 2), (''d'', 1)] = Some ''d''"
    by code_simp
  have m: "map (bucket_of [(''a'', 2), (''b'', 1), (''c'', 2), (''d'', 1)]) [0..<nat 2]
           = [[''b'', ''d''], [''a'', ''c'']]"
    by code_simp
  from C1_row_retrieval_rule [OF n, of ?cs] h x m
  show ?thesis using n by simp
qed

text \<open>
  C2 (as amended). With \<open>k = 4\<close>, \<open>n = 3\<close> the four items share one row, and the pops
  return \<open>b, d, a, c\<close>: priority 1 first, then the two items of priority 2, newest first,
  then priority 3. The order \<open>d, b, a, c\<close> is that of \<open>k = 3\<close>, \<open>n = 3\<close>, where \<open>d\<close> opens
  a second row, which is popped first.
\<close>

theorem C2_pop_order_k4_and_k3:
  "new_PRS 4 3 None = Inr (fresh_PRS 4 3 None :: string PriorityRowStack)
   \<and> drain (pushes (fresh_PRS 4 3 None) [(''a'', 2), (''b'', 1), (''c'', 3), (''d'', 2)])
       = Inr [''b'', ''d'', ''a'', ''c'']
   \<and> new_PRS 3 3 None = Inr (fresh_PRS 3 3 None :: string PriorityRowStack)
   \<and> drain (pushes (fresh_PRS 3 3 None) [(''a'', 2), (''b'', 1), (''c'', 3), (''d'', 2)])
       = Inr [''d'', ''b'', ''a'', ''c'']"
proof -
  have "drain (pushes (fresh_PRS 4 3 None) [(''a'', 2), (''b'', 1), (''c'', 3), (''d'', 2)])
        = Inr [''b'', ''d'', ''a'', ''c'']"
    by code_simp
  moreover
  have "drain (pushes (fresh_PRS 3 3 None) [(''a'', 2), (''b'', 1), (''c'', 3), (''d'', 2)])
        = Inr [''d'', ''b'', ''a'', ''c'']"
    by code_simp
  ultimately show ?thesis by (simp add: new_PRS_fresh)
qed

text \<open>
  The claim as it was stated fails: with \<open>k = 4\<close>, \<open>n = 3\<close> the pops are not
  \<open>d, b, a, c\<close>.
\<close>

theorem C2_counterexample:
  "new_PRS 4 3 None = Inr (fresh_PRS 4 3 None :: string PriorityRowStack)
   \<and> drain (pushes (fresh_PRS 4 3 None) [(''a'', 2), (''b'', 1), (''c'', 3), (''d'', 2)])
       \<noteq> Inr [''d'', ''b'', ''a'', ''c'']"
proof -
  have "drain (pushes (fresh_PRS 4 3 None) [(''a'', 2), (''b'', 1), (''c'', 3), (''d'', 2)])
        = Inr [''b'', ''d'', ''a'', ''c'']"
    by code_simp
  then show ?thesis by (simp add: new_PRS_fresh)
qed

text \<open>
  C3. In every reachable state \<open>tolist\<close> returns exactly the items that calling \<open>pop\<close>
  until the stack is empty returns, in that order, and leaves the stack as it was; a
  second call therefore returns the same list.
\<close>

theorem C3_snapshot_is_pop_order:
  assumes "reachable s"
  shows "\<exists>xs. tolist s = (Inr xs, s) \<and> drain s = Inr xs
              \<and> tolist (snd (tolist s)) = (Inr xs, s)"
proof -
  from assms have inv: "prs_inv s" by (rule reachable_inv)
  then have "drain s = Inr (items s)" by (simp add: drain_items)
  with tolist_ok [OF inv] show ?thesis by simp
qed

theorem C3_witness:
  "reachable (pushes (fresh_PRS 3 3 None) [(''a'', 2), (''b'', 1), (''c'', 3), (''d'', 1)])
   \<and> tolist (pushes (fresh_PRS 3 3 None) [(''a'', 2), (''b'', 1), (''c'', 3), (''d'', 1)])
       = (Inr [''d'', ''b'', ''a'', ''c''],
          pushes (fresh_PRS 3 3 None) [(''a'', 2), (''b'', 1), (''c'', 3), (''d'', 1)])
   \<and> drain (pushes (fresh_PRS 3 3 None) [(''a'', 2), (''b'', 1), (''c'', 3), (''d'', 1)])
       = Inr [''d'', ''b'', ''a'', ''c'']"
proof -
  let ?s = "pushes (fresh_PRS 3 3 None) [(''a'', 2), (''b'', 1), (''c'', 3), (''d'', 1)]
            :: string PriorityRowStack"
  have r: "reachable ?s" by (intro reachable_pushes reachable_fresh_None) simp_all
  have e: "fst (tolist ?s) = Inr [''d'', ''b'', ''a'', ''c'']" by code_simp
  from C3_snapshot_is_pop_order [OF r] r e show ?thesis by auto
qed

text \<open>
  C4 (as amended). In every reachable state a \<open>push\<close> with a priority outside \<open>[1, n]\<close>
  fails and inserts nothing. When the last row has room, it raises \<open>PriorityError\<close> and the
  whole stack is as before. In every case \<open>k\<close>, \<open>n\<close>, \<open>m\<close> and \<open>size()\<close> are as before, the
  stack differs from the old one in its list of rows at most, every row that was there is
  unchanged, the rows are the old rows or the old rows and one empty row after them, and
  the snapshot is the same. It fails with \<open>PriorityError\<close>, except when a row is needed and
  the row limit is reached: then \<open>_ensure_top_row\<close> raises \<open>PRSError\<close> before the priority
  is looked at, and the stack is unchanged.
\<close>

theorem C4_invalid_priority_rejected:
  assumes "reachable s" "\<not> (1 \<le> priority \<and> priority \<le> prs_n s)"
  shows "(fst (push s item priority) = Inl PriorityError
            \<or> fst (push s item priority) = Inl PRSError)
       \<and> (fst (push s item priority) = Inl PRSError \<longleftrightarrow> needs_row s \<and> at_limit s)
       \<and> (fst (push s item priority) = Inl PRSError \<longrightarrow> snd (push s item priority) = s)
       \<and> (\<not> needs_row s \<longrightarrow> push s item priority = (Inl PriorityError, s))
       \<and> snd (push s item priority) = s\<lparr>prs_rows := prs_rows (snd (push s item priority))\<rparr>
       \<and> (prs_rows (snd (push s item priority)) = prs_rows s
            \<or> prs_rows (snd (push s item priority))
                = prs_rows s @ [empty_row (prs_k s) (prs_n s)])
       \<and> prs_k (snd (push s item priority)) = prs_k s
       \<and> prs_n (snd (push s item priority)) = prs_n s
       \<and> prs_m (snd (push s item priority)) = prs_m s
       \<and> size_prs (snd (push s item priority)) = size_prs s
       \<and> fst (tolist (snd (push s item priority))) = fst (tolist s)
       \<and> take (rows_count s) (prs_rows (snd (push s item priority))) = prs_rows s
       \<and> rows_count (snd (push s item priority)) \<le> rows_count s + 1"
proof -
  from assms(1) have inv: "prs_inv s" by (rule reachable_inv)
  then have inv': "prs_inv (snd (push s item priority))" by (rule push_inv)
  have it: "fst (tolist (snd (push s item priority))) = Inr (items (snd (push s item priority)))"
    "fst (tolist s) = Inr (items s)"
    by (simp_all add: tolist_ok [OF inv] tolist_ok [OF inv'])
  show ?thesis
  proof (cases "needs_row s \<and> at_limit s")
    case True
    then have "push s item priority = (Inl PRSError, s)" by (simp add: push_limit)
    with True show ?thesis by (simp add: rows_count_def)
  next
    case False
    from push_bad_priority [OF inv False assms(2), of item]
    have p: "push s item priority = (Inl PriorityError, s\<lparr>prs_rows := opened s\<rparr>)" .
    have o: "\<not> needs_row s \<longrightarrow> opened s = prs_rows s"
      "opened s = prs_rows s \<or> opened s = prs_rows s @ [empty_row (prs_k s) (prs_n s)]"
      "length (opened s) \<le> length (prs_rows s) + 1"
      by (simp_all add: opened_def)
    have a: "fst (push s item priority) = Inl PriorityError
            \<or> fst (push s item priority) = Inl PRSError"
      by (simp add: p)
    have b: "fst (push s item priority) = Inl PRSError \<longleftrightarrow> needs_row s \<and> at_limit s"
      using False by (simp add: p)
    have c: "fst (push s item priority) = Inl PRSError \<longrightarrow> snd (push s item priority) = s"
      by (simp add: p)
    have d: "\<not> needs_row s \<longrightarrow> push s item priority = (Inl PriorityError, s)"
      using o(1) by (simp add: p)
    have e: "snd (push s item priority) = s\<lparr>prs_rows := prs_rows (snd (push s item priority))\<rparr>"
      by (simp add: p)
    have f: "prs_rows (snd (push s item priority)) = prs_rows s
            \<or> prs_rows (snd (push s item priority))
                = prs_rows s @ [empty_row (prs_k s) (prs_n s)]"
      using o(2) by (simp add: p)
    have g: "prs_k (snd (push s item priority)) = prs_k s"
      "prs_n (snd (push s item priority)) = prs_n s"
      "prs_m (snd (push s item priority)) = prs_m s"
      "size_prs (snd (push s item priority)) = size_prs s"
      by (simp_all add: p size_prs_def)
    have h: "fst (tolist (snd (push s item priority))) = fst (tolist s)"
      using it opened_items [OF inv] by (simp add: p)
    have i: "take (rows_count s) (prs_rows (snd (push s item priority))) = prs_rows s"
      by (simp add: p rows_count_def opened_take)
    have j: "rows_count (snd (push s item priority)) \<le> rows_count s + 1"
      using o(3) by (simp add: p rows_count_def)
    show ?thesis by (intro conjI a b c d e f g h i j)
  qed
qed

theorem C4_witness:
  "reachable (pushes (fresh_PRS 2 2 (Some 3)) [(''a'', 1)])
   \<and> \<not> (1 \<le> (3::int) \<and> 3 \<le> prs_n (pushes (fresh_PRS 2 2 (Some 3)) [(''a'', 1)]))
   \<and> \<not> needs_row (pushes (fresh_PRS 2 2 (Some 3)) [(''a'', 1)])
   \<and> push (pushes (fresh_PRS 2 2 (Some 3)) [(''a'', 1)]) ''bad'' 3
       = (Inl PriorityError, pushes (fresh_PRS 2 2 (Some 3)) [(''a'', 1)])
   \<and> reachable (pushes (fresh_PRS 1 2 (Some 3)) [(''a'', 1)])
   \<and> \<not> (1 \<le> (0::int) \<and> 0 \<le> prs_n (pushes (fresh_PRS 1 2 (Some 3)) [(''a'', 1)]))
   \<and> needs_row (pushes (fresh_PRS 1 2 (Some 3)) [(''a'', 1)])
   \<and> \<not> at_limit (pushes (fresh_PRS 1 2 (Some 3)) [(''a'', 1)])
   \<and> fst (push (pushes (fresh_PRS 1 2 (Some 3)) [(''a'', 1)]) ''bad'' 0) = Inl PriorityError
   \<and> prs_k (snd (push (pushes (fresh_PRS 1 2 (Some 3)) [(''a'', 1)]) ''bad'' 0)) = 1
   \<and> prs_n (snd (push (pushes (fresh_PRS 1 2 (Some 3)) [(''a'', 1)]) ''bad'' 0)) = 2
   \<and> prs_m (snd (push (pushes (fresh_PRS 1 2 (Some 3)) [(''a'', 1)]) ''bad'' 0)) = Some 3
   \<and> size_prs (snd (push (pushes (fresh_PRS 1 2 (Some 3)) [(''a'', 1)]) ''bad'' 0)) = 1
   \<and> fst (tolist (snd (push (pushes (fresh_PRS 1 2 (Some 3)) [(''a'', 1)]) ''bad'' 0)))
       = Inr [''a'']
   \<and> take 1 (prs_rows (snd (push (pushes (fresh_PRS 1 2 (Some 3)) [(''a'', 1)]) ''bad'' 0)))
       = prs_rows (pushes (fresh_PRS 1 2 (Some 3)) [(''a'', 1)])
   \<and> rows_count (snd (push (pushes (fresh_PRS 1 2 (Some 3)) [(''a'', 1)]) ''bad'' 0)) \<le> 2"
proof -
  let ?s = "pushes (fresh_PRS 2 2 (Some 3)) [(''a'', 1)] :: string PriorityRowStack"
  let ?t = "pushes (fresh_PRS 1 2 (Some 3)) [(''a'', 1)] :: string PriorityRowStack"
  have rs: "reachable ?s" by (intro reachable_pushes reachable_fresh_Some) simp_all
  have rt: "reachable ?t" by (intro reachable_pushes reachable_fresh_Some) simp_all
  have hs: "\<not> (1 \<le> (3::int) \<and> 3 \<le> prs_n ?s)" by code_simp
  have ht: "\<not> (1 \<le> (0::int) \<and> 0 \<le> prs_n ?t)" by code_simp
  have es: "\<not> needs_row ?s" by code_simp
  have et: "needs_row ?t" "\<not> at_limit ?t" "prs_k ?t = 1" "prs_n ?t = 2" "prs_m ?t = Some 3"
    "size_prs ?t = 1" "fst (tolist ?t) = Inr [''a'']" "rows_count ?t = 1"
    by code_simp+
  from C4_invalid_priority_rejected [OF rs hs, of "''bad''"] es
  have a: "push ?s ''bad'' 3 = (Inl PriorityError, ?s)" by blast
  from C4_invalid_priority_rejected [OF rt ht, of "''bad''"] et
  have b: "fst (push ?t ''bad'' 0) = Inl PriorityError"
    "prs_k (snd (push ?t ''bad'' 0)) = 1"
    "prs_n (snd (push ?t ''bad'' 0)) = 2"
    "prs_m (snd (push ?t ''bad'' 0)) = Some 3"
    "size_prs (snd (push ?t ''bad'' 0)) = 1"
    "fst (tolist (snd (push ?t ''bad'' 0))) = Inr [''a'']"
    "take 1 (prs_rows (snd (push ?t ''bad'' 0))) = prs_rows ?t"
    "rows_count (snd (push ?t ''bad'' 0)) \<le> 2"
    by auto
  show ?thesis
    by (intro conjI rs rt hs ht es et(1,2) a b)
qed

text \<open>
  The claim as it was stated fails twice. On a new stack with \<open>k = 2\<close>, \<open>n = 2\<close> the push of
  priority 0 raises \<open>PriorityError\<close> after \<open>_ensure_top_row\<close> has appended a row:
  \<open>rows_count()\<close> goes from 0 to 1. With \<open>k = 1\<close>, \<open>n = 1\<close>, \<open>m = 1\<close> and one item
  stored, the push of priority 0 raises \<open>PRSError\<close>, not \<open>PriorityError\<close>.
\<close>

theorem C4_counterexample:
  "new_PRS 2 2 None = Inr (fresh_PRS 2 2 None :: string PriorityRowStack)
   \<and> fst (push (fresh_PRS 2 2 None) ''bad'' 0) = Inl PriorityError
   \<and> rows_count (fresh_PRS 2 2 None :: string PriorityRowStack) = 0
   \<and> rows_count (snd (push (fresh_PRS 2 2 None) ''bad'' 0)) = 1
   \<and> snd (push (fresh_PRS 2 2 None) ''bad'' 0) \<noteq> fresh_PRS 2 2 None
   \<and> new_PRS 1 1 (Some 1) = Inr (fresh_PRS 1 1 (Some 1) :: string PriorityRowStack)
   \<and> fst (push (fresh_PRS 1 1 (Some 1)) ''r1'' 1) = Inr ()
   \<and> fst (push (pushes (fresh_PRS 1 1 (Some 1)) [(''r1'', 1)]) ''bad'' 0) = Inl PRSError"
proof -
  have a: "fst (push (fresh_PRS 2 2 None) ''bad'' 0) = Inl PriorityError" by code_simp
  have b: "rows_count (fresh_PRS 2 2 None :: string PriorityRowStack) = 0" by code_simp
  have c: "rows_count (snd (push (fresh_PRS 2 2 None) ''bad'' 0)) = 1" by code_simp
  from b c have d: "snd (push (fresh_PRS 2 2 None) ''bad'' 0)
                    \<noteq> (fresh_PRS 2 2 None :: string PriorityRowStack)"
    by auto
  have e: "fst (push (fresh_PRS 1 1 (Some 1)) ''r1'' 1) = Inr ()" by code_simp
  have f: "fst (push (pushes (fresh_PRS 1 1 (Some 1)) [(''r1'', 1)]) ''bad'' 0) = Inl PRSError"
    by code_simp
  have g: "new_PRS 2 2 None = Inr (fresh_PRS 2 2 None :: string PriorityRowStack)"
    "new_PRS 1 1 (Some 1) = Inr (fresh_PRS 1 1 (Some 1) :: string PriorityRowStack)"
    by (simp_all add: new_PRS_fresh)
  show ?thesis by (intro conjI g a b c d e f)
qed

text \<open>
  C5. In every reachable state \<open>peek\<close> and \<open>pop\<close> raise \<open>EmptyError\<close> exactly when
  \<open>size()\<close> is 0, and a call that raises \<open>EmptyError\<close> leaves the stack as it was.
\<close>

theorem C5_empty_error_iff_size_zero:
  assumes "reachable s"
  shows "(fst (peek s) = Inl EmptyError \<longleftrightarrow> size_prs s = 0)
       \<and> (fst (pop s) = Inl EmptyError \<longleftrightarrow> size_prs s = 0)
       \<and> (fst (peek s) = Inl EmptyError \<longrightarrow> snd (peek s) = s)
       \<and> (fst (pop s) = Inl EmptyError \<longrightarrow> snd (pop s) = s)"
proof (cases "prs_size s = 0")
  case True
  then show ?thesis by (simp add: peek_empty pop_empty size_prs_def)
next
  case False
  from assms have inv: "prs_inv s" by (rule reachable_inv)
  from pop_ok [OF inv False] obtain s' where "pop s = (Inr (hd (items s)), s')" by blast
  with False peek_ok [OF inv False] show ?thesis by (simp add: size_prs_def)
qed

theorem C5_witness:
  "reachable (fresh_PRS 2 2 None :: string PriorityRowStack)
   \<and> size_prs (fresh_PRS 2 2 None :: string PriorityRowStack) = 0
   \<and> peek (fresh_PRS 2 2 None :: string PriorityRowStack)
       = (Inl EmptyError, fresh_PRS 2 2 None)
   \<and> pop (fresh_PRS 2 2 None :: string PriorityRowStack)
       = (Inl EmptyError, fresh_PRS 2 2 None)
   \<and> reachable (pushes (fresh_PRS 2 2 None) [(''a'', 1)])
   \<and> size_prs (pushes (fresh_PRS 2 2 None) [(''a'', 1)]) = 1
   \<and> fst (peek (pushes (fresh_PRS 2 2 None) [(''a'', 1)])) \<noteq> Inl EmptyError
   \<and> fst (pop (pushes (fresh_PRS 2 2 None) [(''a'', 1)])) \<noteq> Inl EmptyError"
proof -
  let ?s0 = "fresh_PRS 2 2 None :: string PriorityRowStack"
  let ?s1 = "pushes ?s0 [(''a'', 1)]"
  have r0: "reachable ?s0" by (simp add: reachable_fresh_None)
  then have r1: "reachable ?s1" by (rule reachable_pushes)
  have z0: "size_prs ?s0 = 0" by (simp add: size_prs_def fresh_PRS_def)
  have z1: "size_prs ?s1 = 1" by code_simp
  from C5_empty_error_iff_size_zero [OF r0] C5_empty_error_iff_size_zero [OF r1] r0 r1 z0 z1
  show ?thesis by (auto simp: prod_eq_iff)
qed

text \<open>
  C6. In every reachable state \<open>push\<close> raises the row-limit \<open>PRSError\<close> exactly when
  \<open>m\<close> is set, the number of rows equals \<open>m\<close> and the last row (if any) is full; the stack
  is then unchanged. Otherwise the rows after the call are the rows \<open>opened s\<close>, a new row
  appended when there was none or the last was full and the old rows when not, with at most
  the top row changed. The number of rows never exceeds \<open>m\<close>. With \<open>k = 1\<close>, \<open>n = 1\<close>,
  \<open>m = 2\<close> two pushes are accepted, into two rows of one item each, and the third raises
  \<open>PRSError\<close> and changes nothing.
\<close>

theorem C6_row_limit:
  assumes "reachable s"
  shows "(fst (push s item priority) = Inl PRSError \<longleftrightarrow>
            (\<exists>mv. prs_m s = Some mv \<and> int (rows_count s) = mv
                  \<and> (prs_rows s = [] \<or> row_is_full (last (prs_rows s)))))
       \<and> (fst (push s item priority) = Inl PRSError \<longrightarrow> snd (push s item priority) = s)
       \<and> (fst (push s item priority) \<noteq> Inl PRSError \<longrightarrow>
            butlast (prs_rows (snd (push s item priority))) = butlast (opened s)
            \<and> rows_count (snd (push s item priority))
                = (if needs_row s then rows_count s + 1 else rows_count s))
       \<and> (\<forall>mv. prs_m s = Some mv \<longrightarrow> int (rows_count s) \<le> mv)
       \<and> fst (push (fresh_PRS 1 1 (Some 2)) ''r1'' 1) = Inr ()
       \<and> fst (push (pushes (fresh_PRS 1 1 (Some 2)) [(''r1'', 1)]) ''r2'' 1) = Inr ()
       \<and> map row_items (prs_rows (pushes (fresh_PRS 1 1 (Some 2)) [(''r1'', 1), (''r2'', 1)]))
           = [[''r1''], [''r2'']]
       \<and> push (pushes (fresh_PRS 1 1 (Some 2)) [(''r1'', 1), (''r2'', 1)]) ''r3'' 1
           = (Inl PRSError, pushes (fresh_PRS 1 1 (Some 2)) [(''r1'', 1), (''r2'', 1)])"
proof -
  from assms have inv: "prs_inv s" by (rule reachable_inv)
  have lim: "needs_row s \<and> at_limit s \<longleftrightarrow>
             (\<exists>mv. prs_m s = Some mv \<and> int (rows_count s) = mv
                  \<and> (prs_rows s = [] \<or> row_is_full (last (prs_rows s))))"
    using at_limit_eq [OF inv] by (auto simp: needs_row_def)
  have ne: "opened s \<noteq> []" by (auto simp: opened_def needs_row_def)
  have len: "length (opened s) = (if needs_row s then rows_count s + 1 else rows_count s)"
    by (simp add: opened_def rows_count_def)
  have a: "fst (push s item priority) = Inl PRSError \<longleftrightarrow> needs_row s \<and> at_limit s"
    using push_cases [OF inv, of item priority] by auto
  have b: "fst (push s item priority) = Inl PRSError \<longrightarrow> snd (push s item priority) = s"
    using push_cases [OF inv, of item priority] by auto
  have c: "fst (push s item priority) \<noteq> Inl PRSError \<longrightarrow>
            butlast (prs_rows (snd (push s item priority))) = butlast (opened s)"
    using push_cases [OF inv, of item priority] by auto
  have d: "fst (push s item priority) \<noteq> Inl PRSError \<longrightarrow>
            rows_count (snd (push s item priority)) = length (opened s)"
    using push_cases [OF inv, of item priority] ne by (auto simp: rows_count_def)
  have e: "\<forall>mv. prs_m s = Some mv \<longrightarrow> int (rows_count s) \<le> mv"
    using inv by (auto simp: prs_inv_def m_allows_def rows_count_def)
  have f1: "fst (push (fresh_PRS 1 1 (Some 2)) ''r1'' 1) = Inr ()" by code_simp
  have f2: "fst (push (pushes (fresh_PRS 1 1 (Some 2)) [(''r1'', 1)]) ''r2'' 1) = Inr ()"
    by code_simp
  have f3: "map row_items (prs_rows (pushes (fresh_PRS 1 1 (Some 2)) [(''r1'', 1), (''r2'', 1)]))
           = [[''r1''], [''r2'']]"
    by code_simp
  have f4: "push (pushes (fresh_PRS 1 1 (Some 2)) [(''r1'', 1), (''r2'', 1)]) ''r3'' 1
           = (Inl PRSError, pushes (fresh_PRS 1 1 (Some 2)) [(''r1'', 1), (''r2'', 1)])"
    by code_simp
  from a lim have a': "fst (push s item priority) = Inl PRSError \<longleftrightarrow>
            (\<exists>mv. prs_m s = Some mv \<and> int (rows_count s) = mv
                  \<and> (prs_rows s = [] \<or> row_is_full (last (prs_rows s))))"
    by simp
  from c d len have cd: "fst (push s item priority) \<noteq> Inl PRSError \<longrightarrow>
            butlast (prs_rows (snd (push s item priority))) = butlast (opened s)
            \<and> rows_count (snd (push s item priority))
                = (if needs_row s then rows_count s + 1 else rows_count s)"
    by simp
  show ?thesis
    by (intro conjI a' b cd e f1 f2 f3 f4)
qed

theorem C6_witness:
  "reachable (pushes (fresh_PRS 1 1 (Some 2)) [(''r1'', 1), (''r2'', 1)])
   \<and> prs_m (pushes (fresh_PRS 1 1 (Some 2)) [(''r1'', 1), (''r2'', 1)]) = Some 2
   \<and> rows_count (pushes (fresh_PRS 1 1 (Some 2)) [(''r1'', 1), (''r2'', 1)]) = 2
   \<and> row_is_full (last (prs_rows (pushes (fresh_PRS 1 1 (Some 2)) [(''r1'', 1), (''r2'', 1)])))
   \<and> fst (push (pushes (fresh_PRS 1 1 (Some 2)) [(''r1'', 1), (''r2'', 1)]) ''r3'' 1)
       = Inl PRSError
   \<and> snd (push (pushes (fresh_PRS 1 1 (Some 2)) [(''r1'', 1), (''r2'', 1)]) ''r3'' 1)
       = pushes (fresh_PRS 1 1 (Some 2)) [(''r1'', 1), (''r2'', 1)]"
proof -
  let ?s = "pushes (fresh_PRS 1 1 (Some 2)) [(''r1'', 1), (''r2'', 1)] :: string PriorityRowStack"
  have r: "reachable ?s" by (intro reachable_pushes reachable_fresh_Some) simp_all
  have e: "prs_m ?s = Some 2" "rows_count ?s = 2" "row_is_full (last (prs_rows ?s))"
    by code_simp+
  from C6_row_limit [OF r, of "''r3''" 1] e
  have "fst (push ?s ''r3'' 1) = Inl PRSError" by simp
  moreover from this C6_row_limit [OF r, of "''r3''" 1]
  have "snd (push ?s ''r3'' 1) = ?s" by blast
  ultimately show ?thesis using r e by simp
qed

text \<open>
  C7. After every sequence of \<open>push\<close>, \<open>peek\<close> and \<open>pop\<close> calls on a new stack, \<open>size()\<close>
  is the number of pushes accepted minus the number of pops that returned an item; it is
  the sum of the \<open>count\<close> fields of the rows, and the \<open>count\<close> of each row is the sum of
  the lengths of its buckets. After pushes only, all of them accepted, \<open>size()\<close> is their
  number, and \<open>is_empty()\<close> is false as soon as there was one.
\<close>

theorem C7_size_accounting:
  assumes "new_PRS k n m = Inr s0"
  shows "size_prs (run s0 cs) = pushes_accepted s0 cs - pops_performed s0 cs
       \<and> size_prs (run s0 cs) = sum_list (map count (prs_rows (run s0 cs)))
       \<and> (\<forall>r \<in> set (prs_rows (run s0 cs)).
             count r = int (sum_list (map length (buckets r))))
       \<and> (list_all is_push cs \<and> pushes_accepted s0 cs = int (length cs)
            \<longrightarrow> size_prs (run s0 cs) = int (length cs)
                \<and> (is_empty (run s0 cs) \<longleftrightarrow> cs = []))"
proof -
  from assms have inv0: "prs_inv s0" by (rule new_PRS_inv)
  from assms have z: "prs_size s0 = 0" by (auto simp: new_PRS_def split: if_splits)
  from inv0 have inv: "prs_inv (run s0 cs)" by (rule run_inv)
  have a: "size_prs (run s0 cs) = pushes_accepted s0 cs - pops_performed s0 cs"
    using run_size [OF inv0, of cs] z by (simp add: size_prs_def)
  have b: "size_prs (run s0 cs) = sum_list (map count (prs_rows (run s0 cs)))"
    using inv by (simp add: prs_inv_def size_prs_def)
  have c: "\<forall>r \<in> set (prs_rows (run s0 cs)).
             count r = int (sum_list (map length (buckets r)))"
    using inv by (auto simp: prs_inv_def list_all_iff row_inv_def)
  have d: "list_all is_push cs \<and> pushes_accepted s0 cs = int (length cs)
            \<longrightarrow> size_prs (run s0 cs) = int (length cs)
                \<and> (is_empty (run s0 cs) \<longleftrightarrow> cs = [])"
    using a by (auto simp: pops_performed_pushes is_empty_def size_prs_def)
  show ?thesis by (intro conjI a b c d)
qed

theorem C7_witness:
  "new_PRS 2 2 None = Inr (fresh_PRS 2 2 None :: string PriorityRowStack)
   \<and> list_all is_push [Push ''a'' 2, Push ''b'' 1, Push ''c'' 2]
   \<and> pushes_accepted (fresh_PRS 2 2 None) [Push ''a'' 2, Push ''b'' 1, Push ''c'' 2] = 3
   \<and> size_prs (run (fresh_PRS 2 2 None) [Push ''a'' 2, Push ''b'' 1, Push ''c'' 2]) = 3
   \<and> \<not> is_empty (run (fresh_PRS 2 2 None) [Push ''a'' 2, Push ''b'' 1, Push ''c'' 2])
   \<and> pushes_accepted (fresh_PRS 2 2 None)
        [Push ''a'' 2, Push ''x'' 0, Pop, Pop, Peek, Push ''b'' 1] = 2
   \<and> pops_performed (fresh_PRS 2 2 None)
        [Push ''a'' 2, Push ''x'' 0, Pop, Pop, Peek, Push ''b'' 1] = 1
   \<and> size_prs (run (fresh_PRS 2 2 None)
        [Push ''a'' 2, Push ''x'' 0, Pop, Pop, Peek, Push ''b'' 1]) = 1"
proof -
  let ?s0 = "fresh_PRS 2 2 None :: string PriorityRowStack"
  let ?p = "[Push ''a'' 2, Push ''b'' 1, Push ''c'' 2]"
  let ?q = "[Push ''a'' 2, Push ''x'' 0, Pop, Pop, Peek, Push ''b'' 1]"
  have n: "new_PRS 2 2 None = Inr ?s0" by (simp add: new_PRS_fresh)
  have e: "list_all is_push ?p" "pushes_accepted ?s0 ?p = 3"
    "pushes_accepted ?s0 ?q = 2" "pops_performed ?s0 ?q = 1"
    by code_simp+
  from C7_size_accounting [OF n, of ?p] e(1,2)
  have "size_prs (run ?s0 ?p) = 3" "\<not> is_empty (run ?s0 ?p)" by simp_all
  moreover from C7_size_accounting [OF n, of ?q] e(3,4)
  have "size_prs (run ?s0 ?q) = 1" by simp
  ultimately show ?thesis using n e by simp
qed

text \<open>
  C8. In every reachable state with \<open>size() > 0\<close> the pruning loop of \<open>peek\<close> and
  \<open>pop\<close> stops at a row that is not empty: the rows it leaves are not \<open>[]\<close>, so the
  second \<open>EmptyError\<close> of either method is not raised, and both calls return an item.
\<close>

theorem C8_pruning_leaves_nonempty_row:
  assumes "reachable s" "0 < size_prs s"
  shows "prune (prs_rows s) \<noteq> []
       \<and> \<not> row_is_empty (last (prune (prs_rows s)))
       \<and> (\<exists>x. fst (peek s) = Inr x) \<and> (\<exists>x. fst (pop s) = Inr x)"
proof -
  from assms(1) have inv: "prs_inv s" by (rule reachable_inv)
  from assms(2) have nz: "prs_size s \<noteq> 0" by (simp add: size_prs_def)
  from pop_ok [OF inv nz] obtain s' where "pop s = (Inr (hd (items s)), s')" by blast
  with pruned(3,4) [OF inv nz] peek_ok [OF inv nz] show ?thesis
    by (simp add: row_is_empty_def)
qed

theorem C8_witness:
  "reachable (pushes (fresh_PRS 1 2 None) [(''a'', 1), (''b'', 3)])
   \<and> 0 < size_prs (pushes (fresh_PRS 1 2 None) [(''a'', 1), (''b'', 3)])
   \<and> rows_count (pushes (fresh_PRS 1 2 None) [(''a'', 1), (''b'', 3)]) = 2
   \<and> row_is_empty (last (prs_rows (pushes (fresh_PRS 1 2 None) [(''a'', 1), (''b'', 3)])))
   \<and> prune (prs_rows (pushes (fresh_PRS 1 2 None) [(''a'', 1), (''b'', 3)])) \<noteq> []
   \<and> \<not> row_is_empty (last (prune (prs_rows (pushes (fresh_PRS 1 2 None) [(''a'', 1), (''b'', 3)]))))
   \<and> fst (pop (pushes (fresh_PRS 1 2 None) [(''a'', 1), (''b'', 3)])) = Inr ''a''"
proof -
  let ?s = "pushes (fresh_PRS 1 2 None) [(''a'', 1), (''b'', 3)] :: string PriorityRowStack"
  have r: "reachable ?s" by (intro reachable_pushes reachable_fresh_None) simp_all
  have z: "0 < size_prs ?s" by code_simp
  have e: "rows_count ?s = 2" "row_is_empty (last (prs_rows ?s))" "fst (pop ?s) = Inr ''a''"
    by code_simp+
  from C8_pruning_leaves_nonempty_row [OF r z] r z e show ?thesis by simp
qed

text \<open>
  C9 (as amended). Failures are raised as exceptions of four classes: invalid constructor
  arguments as the built-in \<open>ValueError\<close>; a priority out of range, when the push reaches
  the row, as \<open>PriorityError\<close>; \<open>peek\<close> and \<open>pop\<close> of an empty stack as \<open>EmptyError\<close>; a
  push that cannot open a row as \<open>PRSError\<close> itself, the base class of the other two and
  not a class of its own. The four classes differ, but a handler for \<open>PRSError\<close> also
  catches \<open>PriorityError\<close> and \<open>EmptyError\<close>, while none of their handlers catches the
  row-limit error.
\<close>

theorem C9_error_kinds:
  fixes s :: "'a PriorityRowStack"
  shows "(k \<le> 0 \<or> n \<le> 0 \<or> (\<exists>mv. m = Some mv \<and> mv \<le> 0)
      \<longrightarrow> (new_PRS k n m :: error + 'a PriorityRowStack) = Inl ValueError)
   \<and> (reachable s \<and> \<not> (1 \<le> priority \<and> priority \<le> prs_n s)
        \<and> \<not> (needs_row s \<and> at_limit s)
      \<longrightarrow> fst (push s item priority) = Inl PriorityError)
   \<and> (reachable s \<and> size_prs s = 0
      \<longrightarrow> fst (peek s) = Inl EmptyError \<and> fst (pop s) = Inl EmptyError)
   \<and> (needs_row s \<and> at_limit s \<longrightarrow> fst (push s item priority) = Inl PRSError)
   \<and> distinct [ValueError, PriorityError, EmptyError, PRSError]
   \<and> base_class PRSError = None
   \<and> isinstance PriorityError PRSError \<and> isinstance EmptyError PRSError
   \<and> \<not> isinstance PRSError PriorityError \<and> \<not> isinstance PRSError EmptyError
   \<and> \<not> isinstance ValueError PRSError \<and> \<not> isinstance PRSError ValueError"
proof -
  have a: "k \<le> 0 \<or> n \<le> 0 \<or> (\<exists>mv. m = Some mv \<and> mv \<le> 0)
      \<longrightarrow> (new_PRS k n m :: error + 'a PriorityRowStack) = Inl ValueError"
    by (auto simp: new_PRS_def)
  have b: "reachable s \<and> \<not> (1 \<le> priority \<and> priority \<le> prs_n s)
        \<and> \<not> (needs_row s \<and> at_limit s)
      \<longrightarrow> fst (push s item priority) = Inl PriorityError"
    using push_bad_priority [of s priority item] reachable_inv [of s] by auto
  have c: "reachable s \<and> size_prs s = 0
      \<longrightarrow> fst (peek s) = Inl EmptyError \<and> fst (pop s) = Inl EmptyError"
    by (simp add: size_prs_def peek_empty pop_empty)
  have d: "needs_row s \<and> at_limit s \<longrightarrow> fst (push s item priority) = Inl PRSError"
    by (simp add: push_limit)
  show ?thesis
    by (intro conjI a b c d) (simp_all add: isinstance_def)
qed

theorem C9_witness:
  "(0::int) \<le> 0
   \<and> (new_PRS 0 1 None :: error + string PriorityRowStack) = Inl ValueError
   \<and> reachable (pushes (fresh_PRS 1 1 (Some 1)) [(''r1'', 1)])
   \<and> needs_row (pushes (fresh_PRS 1 1 (Some 1)) [(''r1'', 1)])
   \<and> at_limit (pushes (fresh_PRS 1 1 (Some 1)) [(''r1'', 1)])
   \<and> fst (push (pushes (fresh_PRS 1 1 (Some 1)) [(''r1'', 1)]) ''r2'' 1) = Inl PRSError
   \<and> reachable (fresh_PRS 1 1 (Some 1) :: string PriorityRowStack)
   \<and> size_prs (fresh_PRS 1 1 (Some 1) :: string PriorityRowStack) = 0
   \<and> fst (pop (fresh_PRS 1 1 (Some 1) :: string PriorityRowStack)) = Inl EmptyError
   \<and> fst (peek (fresh_PRS 1 1 (Some 1) :: string PriorityRowStack)) = Inl EmptyError
   \<and> \<not> (1 \<le> (5::int) \<and> 5 \<le> prs_n (fresh_PRS 1 1 (Some 1) :: string PriorityRowStack))
   \<and> \<not> (needs_row (fresh_PRS 1 1 (Some 1) :: string PriorityRowStack)
          \<and> at_limit (fresh_PRS 1 1 (Some 1) :: string PriorityRowStack))
   \<and> fst (push (fresh_PRS 1 1 (Some 1)) ''x'' 5) = Inl PriorityError"
proof -
  let ?s0 = "fresh_PRS 1 1 (Some 1) :: string PriorityRowStack"
  let ?s1 = "pushes ?s0 [(''r1'', 1)]"
  have r0: "reachable ?s0" by (intro reachable_fresh_Some) simp_all
  then have r1: "reachable ?s1" by (rule reachable_pushes)
  have h1: "needs_row ?s1" "at_limit ?s1" by code_simp+
  have h0: "size_prs ?s0 = 0" "\<not> (1 \<le> (5::int) \<and> 5 \<le> prs_n ?s0)"
    "\<not> (needs_row ?s0 \<and> at_limit ?s0)"
    by code_simp+
  from C9_error_kinds [of 0 1 None ?s1 1 "''r2''"] h1
  have a: "(new_PRS 0 1 None :: error + string PriorityRowStack) = Inl ValueError"
    "fst (push ?s1 ''r2'' 1) = Inl PRSError"
    by simp_all
  from C9_error_kinds [of 0 1 None ?s0 5 "''x''"] r0 h0
  have b: "fst (pop ?s0) = Inl EmptyError" "fst (peek ?s0) = Inl EmptyError"
    "fst (push ?s0 ''x'' 5) = Inl PriorityError"
    by simp_all
  show ?thesis
    using r0 r1 h0 h1 a b by simp
qed

text \<open>
  The claim as it was stated fails: the push that cannot open a row raises \<open>PRSError\<close>
  itself, which has no base among the classes of the module and is the class
  \<open>PriorityError\<close> and \<open>EmptyError\<close> derive from, so it is the generic failure of the
  module and not a variant of it.
\<close>

theorem C9_counterexample:
  "new_PRS 1 1 (Some 1) = Inr (fresh_PRS 1 1 (Some 1) :: string PriorityRowStack)
   \<and> fst (push (fresh_PRS 1 1 (Some 1)) ''r1'' 1) = Inr ()
   \<and> fst (push (pushes (fresh_PRS 1 1 (Some 1)) [(''r1'', 1)]) ''r2'' 1) = Inl PRSError
   \<and> base_class PRSError = None
   \<and> isinstance PriorityError PRSError
   \<and> isinstance EmptyError PRSError"
proof -
  have a: "fst (push (fresh_PRS 1 1 (Some 1)) ''r1'' 1) = Inr ()" by code_simp
  have b: "fst (push (pushes (fresh_PRS 1 1 (Some 1)) [(''r1'', 1)]) ''r2'' 1) = Inl PRSError"
    by code_simp
  have c: "new_PRS 1 1 (Some 1) = Inr (fresh_PRS 1 1 (Some 1) :: string PriorityRowStack)"
    by (simp add: new_PRS_fresh)
  show ?thesis by (intro conjI a b c) (simp_all add: isinstance_def)
qed

text \<open>
  C10. In every reachable state every row but the last is full, with \<open>count = k\<close>, so
  no interior row is empty or partly filled; the pruning loop of \<open>peek\<close> and \<open>pop\<close>
  therefore removes at most one row, the last one.
\<close>

theorem C10_interior_rows_full:
  assumes "reachable s"
  shows "(\<forall>r \<in> set (butlast (prs_rows s)). count r = prs_k s \<and> row_is_full r \<and> \<not> row_is_empty r)
       \<and> (prune (prs_rows s) = prs_rows s \<or> prune (prs_rows s) = butlast (prs_rows s))
       \<and> rows_count s \<le> length (prune (prs_rows s)) + 1"
proof -
  from assms have inv: "prs_inv s" by (rule reachable_inv)
  then have full: "list_all (\<lambda>r. count r = prs_k s) (butlast (prs_rows s))"
    and k: "0 < prs_k s"
    and rows: "list_all (row_inv (prs_k s) (prs_n s)) (prs_rows s)"
    by (simp_all add: prs_inv_def)
  have "\<forall>r \<in> set (butlast (prs_rows s)). count r = prs_k s \<and> row_is_full r \<and> \<not> row_is_empty r"
    using full k rows
    by (auto simp: list_all_iff row_is_full_def row_is_empty_def row_inv_def dest: in_set_butlastD)
  with prune_full [OF full k] show ?thesis
    by (auto simp: rows_count_def)
qed

theorem C10_witness:
  "reachable (pushes (fresh_PRS 1 2 None) [(''a'', 1), (''b'', 2), (''c'', 3)])
   \<and> map count (prs_rows (pushes (fresh_PRS 1 2 None) [(''a'', 1), (''b'', 2), (''c'', 3)]))
       = [1, 1, 0]
   \<and> length (prune (prs_rows (pushes (fresh_PRS 1 2 None) [(''a'', 1), (''b'', 2), (''c'', 3)])))
       = 2"
proof -
  let ?s = "pushes (fresh_PRS 1 2 None) [(''a'', 1), (''b'', 2), (''c'', 3)]
            :: string PriorityRowStack"
  have r: "reachable ?s" by (intro reachable_pushes reachable_fresh_None) simp_all
  have e: "map count (prs_rows ?s) = [1, 1, 0]" "length (prune (prs_rows ?s)) = 2"
    by code_simp+
  from C10_interior_rows_full [OF r] r e show ?thesis by simp
qed

end
